theory Spec2Isabelle
  imports Main "HOL-Library.Word"
begin

unbundle bit_operations_syntax

chapter \<open>mini-redis: a shallow embedding of the C sources\<close>

text \<open>
  Conventions of the embedding.
  \<^item> A byte buffer \<open>(const char *buf, size_t len)\<close> is a \<open>string\<close> (a list of 8-bit
    characters); \<open>buf + k\<close> with length \<open>len - k\<close> is \<open>drop k buf\<close>.
  \<^item> \<open>int64_t\<close> is \<open>64 word\<close>, \<open>uint32_t\<close> is \<open>32 word\<close>; arithmetic on them wraps
    around, signed comparisons read the word with \<open>sint\<close>.
  \<^item> \<open>size_t\<close> values are natural numbers. The conversion of a \<open>size_t\<close> to the
    \<open>int\<close> that \<open>resp_parse\<close> returns is written out (\<open>int_of_size\<close>).
  \<^item> Allocation is assumed to succeed (the sources call \<open>exit(1)\<close> otherwise).
\<close>

section \<open>rstr.c: owned byte strings\<close>

type_synonym rstr_t = string

definition rstr_eq :: "rstr_t \<Rightarrow> rstr_t \<Rightarrow> bool" where
  "rstr_eq a b = (if length a \<noteq> length b then False else if length a = 0 then True else a = b)"

section \<open>client.c: the write buffer\<close>

record client_t =
  fd :: int
  read_buf :: string
  write_buf :: string

definition client_write_append :: "client_t \<Rightarrow> string \<Rightarrow> client_t" where
  "client_write_append c data =
     (if length data = 0 then c else c\<lparr>write_buf := write_buf c @ data\<rparr>)"

section \<open>resp.c: the wire codec\<close>

datatype resp_value =
    RESP_SIMPLE_STRING string
  | RESP_ERROR string
  | RESP_INTEGER "64 word"
  | RESP_BULK_STRING string
  | RESP_NULL_BULK_STRING
  | RESP_ARRAY "resp_value list"

text \<open>
  \<open>resp_parse\<close> returns an \<open>int\<close> and writes \<open>*out\<close>. Every caller reads the return value
  by its sign only: \<open>0\<close> is "need more data", a negative value is "malformed", a positive
  value is the number of bytes consumed, and \<open>*out\<close> is read in the last case only.
\<close>

datatype parse_result = NeedMore | Malformed | Parsed resp_value nat

abbreviation CR :: char where "CR \<equiv> CHR 0x0D"
abbreviation LF :: char where "LF \<equiv> CHR 0x0A"

text \<open>The cast \<open>(int)\<close> of a \<open>size_t\<close>: the low 32 bits, read as two's complement.\<close>

definition int_of_size :: "nat \<Rightarrow> int" where
  "int_of_size n = sint (word_of_nat n :: 32 word)"

definition int_ret :: "nat \<Rightarrow> resp_value \<Rightarrow> parse_result" where
  "int_ret n v =
     (let r = int_of_size n
      in if r = 0 then NeedMore else if r < 0 then Malformed else Parsed v (nat r))"

text \<open>\<open>parse_line\<close>: the offset of the first CR LF pair, \<open>None\<close> for the return value -1.\<close>

function parse_line_from :: "string \<Rightarrow> nat \<Rightarrow> nat option" where
  "parse_line_from buf i =
     (if i + 1 < length buf then
        (if buf ! i = CR \<and> buf ! (i + 1) = LF then Some i
         else parse_line_from buf (i + 1))
      else None)"
  by pat_completeness auto
termination
  by (relation "measure (\<lambda>(buf, i). length buf - i)") auto

declare parse_line_from.simps [simp del]

definition parse_line :: "string \<Rightarrow> nat option" where
  "parse_line buf = parse_line_from buf 0"

text \<open>
  \<open>parse_integer_value\<close>: no overflow check; \<open>result * 10 + digit\<close> is computed in
  \<open>int64_t\<close>. \<open>None\<close> stands for the return value -1.
\<close>

fun parse_integer_digits :: "string \<Rightarrow> 64 word \<Rightarrow> 64 word option" where
  "parse_integer_digits [] result = Some result"
| "parse_integer_digits (c # cs) result =
     (if (of_char c :: nat) < 48 \<or> (of_char c :: nat) > 57 then None
      else parse_integer_digits cs (result * 10 + (of_char c - 48)))"

definition parse_integer_value :: "string \<Rightarrow> 64 word option" where
  "parse_integer_value buf =
     (if length buf = 0 then None
      else if hd buf = CHR ''-'' then
        (if length buf = 1 then None
         else (case parse_integer_digits (tl buf) 0 of
                 None \<Rightarrow> None
               | Some result \<Rightarrow> Some (result * (- 1))))
      else (case parse_integer_digits buf 0 of
              None \<Rightarrow> None
            | Some result \<Rightarrow> Some (result * 1)))"

text \<open>\<open>parse_bulk_string\<close>: the argument is the buffer after the \<open>$\<close>.\<close>

definition parse_bulk_string :: "string \<Rightarrow> parse_result" where
  "parse_bulk_string buf =
     (case parse_line buf of
        None \<Rightarrow> NeedMore
      | Some line_len \<Rightarrow>
          (case parse_integer_value (take line_len buf) of
             None \<Rightarrow> Malformed
           | Some slen \<Rightarrow>
               if slen = - 1 then int_ret (1 + line_len + 2) RESP_NULL_BULK_STRING
               else if slen <s 0 then Malformed
               else
                 (let header_len = 1 + line_len + 2;
                      total = header_len + unat slen + 2
                  in if 1 + length buf < total \<and> length buf < line_len + 2 + unat slen + 2
                     then NeedMore
                     else int_ret (1 + line_len + 2 + unat slen + 2)
                            (RESP_BULK_STRING (take (unat slen) (drop (line_len + 2) buf))))))"

lemma parse_line_from_bound:
  "parse_line_from buf i = Some n \<Longrightarrow> i \<le> n \<and> n + 1 < length buf"
proof (induction buf i rule: parse_line_from.induct)
  case (1 buf i)
  then show ?case
    by (subst (asm) (2) parse_line_from.simps) (auto split: if_splits)
qed

lemma parse_line_bound: "parse_line buf = Some n \<Longrightarrow> n + 1 < length buf"
  using parse_line_from_bound [of buf 0 n] by (simp add: parse_line_def)

text \<open>
  \<open>resp_parse\<close> and \<open>parse_array\<close> are mutually recursive; the \<open>for\<close> loop of
  \<open>parse_array\<close> is \<open>parse_array_loop\<close>, with the loop variables \<open>i\<close>, \<open>consumed\<close> and
  the elements parsed so far.
\<close>

function resp_parse :: "string \<Rightarrow> parse_result"
  and parse_array :: "string \<Rightarrow> parse_result"
  and parse_array_loop :: "string \<Rightarrow> int \<Rightarrow> nat \<Rightarrow> nat \<Rightarrow> resp_value list \<Rightarrow> parse_result"
where
  "resp_parse buf =
     (if length buf = 0 then NeedMore
      else if hd buf = CHR ''+'' \<or> hd buf = CHR ''-'' then
        (case parse_line (tl buf) of
           None \<Rightarrow> NeedMore
         | Some line_len \<Rightarrow>
             int_ret (1 + line_len + 2)
               (if hd buf = CHR ''+'' then RESP_SIMPLE_STRING (take line_len (tl buf))
                else RESP_ERROR (take line_len (tl buf))))
      else if hd buf = CHR '':'' then
        (case parse_line (tl buf) of
           None \<Rightarrow> NeedMore
         | Some line_len \<Rightarrow>
             (case parse_integer_value (take line_len (tl buf)) of
                None \<Rightarrow> Malformed
              | Some val \<Rightarrow> int_ret (1 + line_len + 2) (RESP_INTEGER val)))
      else if hd buf = CHR ''$'' then parse_bulk_string (tl buf)
      else if hd buf = CHR ''*'' then parse_array buf
      else Malformed)"
| "parse_array buf =
     (case parse_line (tl buf) of
        None \<Rightarrow> NeedMore
      | Some line_len \<Rightarrow>
          (case parse_integer_value (take line_len (tl buf)) of
             None \<Rightarrow> Malformed
           | Some count \<Rightarrow>
               if count <s 0 then Malformed
               else if count = 0 then int_ret (1 + line_len + 2) (RESP_ARRAY [])
               else parse_array_loop buf (sint count) 0 (1 + line_len + 2) []))"
| "parse_array_loop buf count i consumed elements =
     (if int i < count then
        (if consumed \<ge> length buf then NeedMore
         else (case resp_parse (drop consumed buf) of
                 NeedMore \<Rightarrow> NeedMore
               | Malformed \<Rightarrow> Malformed
               | Parsed v r \<Rightarrow>
                   parse_array_loop buf count (i + 1) (consumed + r) (elements @ [v])))
      else int_ret consumed (RESP_ARRAY elements))"
  by pat_completeness auto
termination
proof (relation "inv_image (less_than <*lex*> less_than <*lex*> less_than)
    (\<lambda>x. case x of
        Inl buf \<Rightarrow> (length buf, 2, 0)
      | Inr (Inl buf) \<Rightarrow> (length buf, 1, 0)
      | Inr (Inr (buf, count, i, consumed, elements)) \<Rightarrow>
          (length buf - consumed, 3, nat count - i))", goal_cases)
  case 1
  show ?case by (intro wf_inv_image wf_lex_prod wf_less_than)
next
  case (2 buf)
  then show ?case by simp
next
  case (3 buf line_len count)
  then show ?case
    using parse_line_bound [of "tl buf" line_len] by auto
next
  case (4 buf count i consumed elements)
  then show ?case by simp
next
  case (5 buf count i consumed elements v r)
  then show ?case by auto
qed

declare resp_parse.simps [simp del] parse_array.simps [simp del]
  parse_array_loop.simps [simp del]

subsection \<open>The serializer\<close>

text \<open>
  A \<open>const char *str\<close> argument is read up to its terminating NUL (\<open>strlen\<close>): \<open>c_str\<close>
  gives the bytes before the first NUL of the buffer passed.
\<close>

definition c_str :: "string \<Rightarrow> string" where
  "c_str s = takeWhile (\<lambda>c. c \<noteq> CHR 0x00) s"

text \<open>The decimal conversions of \<open>snprintf\<close>: \<open>%zu\<close> (\<open>dec_nat\<close>), \<open>%d\<close> and \<open>PRId64\<close> (\<open>dec_int\<close>).\<close>

function dec_nat :: "nat \<Rightarrow> string" where
  "dec_nat n =
     (if n < 10 then [char_of (48 + n)]
      else dec_nat (n div 10) @ [char_of (48 + n mod 10)])"
  by pat_completeness auto
termination
  by (relation "measure id") auto

declare dec_nat.simps [simp del]

definition dec_int :: "int \<Rightarrow> string" where
  "dec_int i = (if i < 0 then CHR ''-'' # dec_nat (nat (- i)) else dec_nat (nat i))"

definition resp_write_simple_string :: "client_t \<Rightarrow> string \<Rightarrow> client_t" where
  "resp_write_simple_string c str =
     client_write_append (client_write_append (client_write_append c ''+'') (c_str str))
       [CR, LF]"

definition resp_write_error :: "client_t \<Rightarrow> string \<Rightarrow> client_t" where
  "resp_write_error c msg =
     client_write_append (client_write_append (client_write_append c ''-'') (c_str msg))
       [CR, LF]"

definition resp_write_integer :: "client_t \<Rightarrow> 64 word \<Rightarrow> client_t" where
  "resp_write_integer c val = client_write_append c ('':'' @ dec_int (sint val) @ [CR, LF])"

definition resp_write_bulk_string :: "client_t \<Rightarrow> string \<Rightarrow> client_t" where
  "resp_write_bulk_string c data =
     client_write_append
       (client_write_append
          (client_write_append c (''$'' @ dec_nat (length data) @ [CR, LF])) data)
       [CR, LF]"

definition resp_write_null_bulk_string :: "client_t \<Rightarrow> client_t" where
  "resp_write_null_bulk_string c = client_write_append c (''$-1'' @ [CR, LF])"

definition resp_write_array_header :: "client_t \<Rightarrow> int \<Rightarrow> client_t" where
  "resp_write_array_header c count = client_write_append c (''*'' @ dec_int count @ [CR, LF])"

section \<open>hashtable.c: the keyspace\<close>

text \<open>
  \<open>current_time_ms\<close> (declared in util.h) is not part of the sources at hand: the clock
  reading is the parameter \<open>now\<close> of every operation that reads the clock. One operation
  gets one reading.

  The counters \<open>count\<close> and \<open>used\<close> are \<open>size_t\<close>; they are natural numbers here, and
  \<open>count--\<close> is \<open>count - 1\<close>. The invariant proved below shows that the decrement is only
  applied to a positive counter in every reachable table.
\<close>

datatype entry_state_t = ENTRY_EMPTY | ENTRY_OCCUPIED | ENTRY_TOMBSTONE

record ht_entry_t =
  state :: entry_state_t
  key :: rstr_t
  val :: rstr_t
  expire_at :: "64 word"

record hashtable_t =
  entries :: "ht_entry_t list"
  capacity :: nat
  count :: nat
  used :: nat

definition HT_INITIAL_CAPACITY :: nat where
  "HT_INITIAL_CAPACITY = 64"

fun fnv1a_loop :: "string \<Rightarrow> 32 word \<Rightarrow> 32 word" where
  "fnv1a_loop [] hash = hash"
| "fnv1a_loop (c # cs) hash = fnv1a_loop cs ((hash XOR of_char c) * 16777619)"

definition fnv1a_hash :: "string \<Rightarrow> 32 word" where
  "fnv1a_hash data = fnv1a_loop data 2166136261"

definition is_expired :: "64 word \<Rightarrow> ht_entry_t \<Rightarrow> bool" where
  "is_expired now entry = (if expire_at entry = - 1 then False else expire_at entry \<le>s now)"

definition entry_free :: "ht_entry_t \<Rightarrow> ht_entry_t" where
  "entry_free entry = entry\<lparr>key := [], val := [], state := ENTRY_TOMBSTONE, expire_at := - 1\<rparr>"

text \<open>
  \<open>probe\<close> returns the slot, sets \<open>*found\<close> and may turn an expired entry into a
  tombstone: the result is the table, the slot and \<open>found\<close>. The sentinel
  \<open>(size_t)-1\<close> of \<open>first_tombstone\<close> is \<open>None\<close>.
\<close>

function probe_loop ::
  "hashtable_t \<Rightarrow> rstr_t \<Rightarrow> 64 word \<Rightarrow> nat \<Rightarrow> nat option \<Rightarrow> nat \<Rightarrow> hashtable_t \<times> nat \<times> bool"
where
  "probe_loop ht k now idx first_tombstone i =
     (if i < capacity ht then
        (let slot = (idx + i) AND (capacity ht - 1);
             e = entries ht ! slot
         in if state e = ENTRY_EMPTY then
              (ht, (case first_tombstone of Some t \<Rightarrow> t | None \<Rightarrow> slot), False)
            else if state e = ENTRY_TOMBSTONE then
              probe_loop ht k now idx
                (case first_tombstone of None \<Rightarrow> Some slot | Some t \<Rightarrow> Some t) (i + 1)
            else if rstr_eq (key e) k then
              (if is_expired now e then
                 (ht\<lparr>entries := (entries ht)[slot := entry_free e], count := count ht - 1\<rparr>,
                  (case first_tombstone of Some t \<Rightarrow> t | None \<Rightarrow> slot), False)
               else (ht, slot, True))
            else probe_loop ht k now idx first_tombstone (i + 1))
      else (ht, (case first_tombstone of Some t \<Rightarrow> t | None \<Rightarrow> 0), False))"
  by pat_completeness auto
termination
  by (relation "measure (\<lambda>(ht, k, now, idx, ft, i). capacity ht - i)") auto

declare probe_loop.simps [simp del]

definition probe :: "hashtable_t \<Rightarrow> rstr_t \<Rightarrow> 64 word \<Rightarrow> hashtable_t \<times> nat \<times> bool" where
  "probe ht k now =
     probe_loop ht k now (unat (fnv1a_hash k) AND (capacity ht - 1)) None 0"

definition empty_entry :: ht_entry_t where
  "empty_entry = \<lparr>state = ENTRY_EMPTY, key = [], val = [], expire_at = - 1\<rparr>"

text \<open>
  \<open>ht_resize\<close>. The inner \<open>while\<close> loop that looks for a slot that is not occupied has
  no bound of its own, so it is a partial function: \<open>None\<close> means it does not return.
  The outer loop walks the old array, \<open>capacity\<close> entries of it.
\<close>

partial_function (option) resize_find_slot :: "ht_entry_t list \<Rightarrow> nat \<Rightarrow> nat \<Rightarrow> nat option"
where
  "resize_find_slot new_entries new_cap idx =
     (if state (new_entries ! idx) = ENTRY_OCCUPIED
      then resize_find_slot new_entries new_cap ((idx + 1) AND (new_cap - 1))
      else Some idx)"

declare resize_find_slot.simps [code]

fun resize_loop :: "ht_entry_t list \<Rightarrow> ht_entry_t list \<Rightarrow> nat \<Rightarrow> ht_entry_t list option" where
  "resize_loop [] new_entries new_cap = Some new_entries"
| "resize_loop (e # old) new_entries new_cap =
     (if state e \<noteq> ENTRY_OCCUPIED then resize_loop old new_entries new_cap
      else (case resize_find_slot new_entries new_cap
                   (unat (fnv1a_hash (key e)) AND (new_cap - 1)) of
              None \<Rightarrow> None
            | Some idx \<Rightarrow> resize_loop old (new_entries[idx := e]) new_cap))"

definition ht_resize :: "hashtable_t \<Rightarrow> hashtable_t option" where
  "ht_resize ht =
     (let new_cap = capacity ht * 2;
          new_entries = replicate new_cap empty_entry
      in case resize_loop (take (capacity ht) (entries ht)) new_entries new_cap of
           None \<Rightarrow> None
         | Some new_entries' \<Rightarrow>
             Some (ht\<lparr>entries := new_entries', capacity := new_cap, used := count ht\<rparr>))"

definition ht_create :: hashtable_t where
  "ht_create =
     \<lparr>entries = replicate HT_INITIAL_CAPACITY empty_entry, capacity = HT_INITIAL_CAPACITY,
      count = 0, used = 0\<rparr>"

text \<open>
  The load test of \<open>ht_set\<close> is \<open>(double)used >= (double)capacity * 0.7\<close>. For a capacity
  that is a power of two below \<open>2^51\<close> the product is exact up to the representation error
  of 0.7 (less than \<open>2^-53\<close> relative), and \<open>7 * capacity / 10\<close> is never within that
  distance of an integer, so the test is \<open>7 * capacity \<le> 10 * used\<close>.
\<close>

definition load_exceeded :: "hashtable_t \<Rightarrow> bool" where
  "load_exceeded ht = (7 * capacity ht \<le> 10 * used ht)"

definition ht_set ::
  "hashtable_t \<Rightarrow> rstr_t \<Rightarrow> rstr_t \<Rightarrow> 64 word \<Rightarrow> (hashtable_t \<times> bool) option" where
  "ht_set ht k v now =
     (case (if load_exceeded ht then ht_resize ht else Some ht) of
        None \<Rightarrow> None
      | Some ht1 \<Rightarrow>
          (case probe ht1 k now of
             (ht2, slot, found) \<Rightarrow>
               if found then
                 Some (ht2\<lparr>entries := (entries ht2)
                          [slot := (entries ht2 ! slot)\<lparr>key := k, val := v, expire_at := - 1\<rparr>]\<rparr>,
                       False)
               else
                 (let was_empty = (state (entries ht2 ! slot) = ENTRY_EMPTY)
                  in Some (ht2\<lparr>entries := (entries ht2)
                             [slot := (entries ht2 ! slot)
                                \<lparr>state := ENTRY_OCCUPIED, key := k, val := v, expire_at := - 1\<rparr>],
                             count := count ht2 + 1,
                             used := (if was_empty then used ht2 + 1 else used ht2)\<rparr>,
                           True))))"

text \<open>
  \<open>ht_get\<close> returns a pointer into the table (\<open>&ht->entries[slot].value\<close>) or NULL: the
  result is the slot, and the caller reads the value from the table it then holds.
\<close>

definition ht_get :: "hashtable_t \<Rightarrow> rstr_t \<Rightarrow> 64 word \<Rightarrow> hashtable_t \<times> nat option" where
  "ht_get ht k now =
     (case probe ht k now of (ht', slot, found) \<Rightarrow> (ht', if \<not> found then None else Some slot))"

definition ht_delete :: "hashtable_t \<Rightarrow> rstr_t \<Rightarrow> 64 word \<Rightarrow> hashtable_t \<times> bool" where
  "ht_delete ht k now =
     (case probe ht k now of
        (ht', slot, found) \<Rightarrow>
          if \<not> found then (ht', False)
          else (ht'\<lparr>entries := (entries ht')[slot := entry_free (entries ht' ! slot)],
                    count := count ht' - 1\<rparr>, True))"

definition ht_exists :: "hashtable_t \<Rightarrow> rstr_t \<Rightarrow> 64 word \<Rightarrow> hashtable_t \<times> bool" where
  "ht_exists ht k now = (case probe ht k now of (ht', slot, found) \<Rightarrow> (ht', found))"

definition ht_set_expire :: "hashtable_t \<Rightarrow> rstr_t \<Rightarrow> 64 word \<Rightarrow> 64 word \<Rightarrow> hashtable_t" where
  "ht_set_expire ht k expire_at_ms now =
     (case probe ht k now of
        (ht', slot, found) \<Rightarrow>
          if found
          then ht'\<lparr>entries := (entries ht')[slot := (entries ht' ! slot)\<lparr>expire_at := expire_at_ms\<rparr>]\<rparr>
          else ht')"

definition ht_get_expire :: "hashtable_t \<Rightarrow> rstr_t \<Rightarrow> 64 word \<Rightarrow> hashtable_t \<times> 64 word" where
  "ht_get_expire ht k now =
     (case probe ht k now of
        (ht', slot, found) \<Rightarrow>
          if \<not> found then (ht', - 1) else (ht', expire_at (entries ht' ! slot)))"

definition ht_count :: "hashtable_t \<Rightarrow> nat" where
  "ht_count ht = count ht"

text \<open>
  The iterator is its \<open>index\<close>; \<open>ht_iter_next\<close> returns the table, the new index and the
  key and value it yields (\<open>None\<close> for \<open>false\<close>).
\<close>

function ht_iter_next ::
  "hashtable_t \<Rightarrow> nat \<Rightarrow> 64 word \<Rightarrow> hashtable_t \<times> nat \<times> (rstr_t \<times> rstr_t) option"
where
  "ht_iter_next ht index now =
     (if index < capacity ht then
        (let e = entries ht ! index
         in if state e \<noteq> ENTRY_OCCUPIED then ht_iter_next ht (index + 1) now
            else if is_expired now e then
              ht_iter_next
                (ht\<lparr>entries := (entries ht)[index := entry_free e], count := count ht - 1\<rparr>)
                (index + 1) now
            else (ht, index + 1, Some (key e, val e)))
      else (ht, index, None))"
  by pat_completeness auto
termination
  by (relation "measure (\<lambda>(ht, index, now). capacity ht - index)") auto

declare ht_iter_next.simps [simp del]

section \<open>glob.c: the pattern matcher\<close>

text \<open>
  \<open>match_char_class\<close> returns the match and updates \<open>*pi\<close>: the result is the pair of
  both. The loop variables of its \<open>while\<close> loop are \<open>i\<close>, \<open>first\<close> and \<open>matched\<close>.
\<close>

function match_char_class_loop :: "string \<Rightarrow> nat \<Rightarrow> bool \<Rightarrow> bool \<Rightarrow> char \<Rightarrow> nat \<times> bool" where
  "match_char_class_loop pattern i first matched c =
     (if i < length pattern \<and> (pattern ! i \<noteq> CHR '']'' \<or> first) then
        (let lo = pattern ! i
         in if i + 2 < length pattern \<and> pattern ! (i + 1) = CHR ''-''
               \<and> pattern ! (i + 2) \<noteq> CHR '']''
            then
              (let hi = pattern ! (i + 2)
               in match_char_class_loop pattern (i + 3) False
                    (if (of_char lo :: nat) \<le> of_char c \<and> (of_char c :: nat) \<le> of_char hi
                     then True else matched) c)
            else
              (let hi = lo
               in match_char_class_loop pattern (i + 1) False
                    (if (of_char lo :: nat) \<le> of_char c \<and> (of_char c :: nat) \<le> of_char hi
                     then True else matched) c))
      else (i, matched))"
  by pat_completeness auto
termination
  by (relation "measure (\<lambda>(pattern, i, first, matched, c). length pattern - i)") auto

declare match_char_class_loop.simps [simp del]

definition match_char_class :: "string \<Rightarrow> nat \<Rightarrow> char \<Rightarrow> bool \<times> nat" where
  "match_char_class pattern pi c =
     (let i = pi + 1
      in if i \<ge> length pattern then (False, pi)
         else
           (let negate = (pattern ! i = CHR ''!'' \<or> pattern ! i = CHR ''^'');
                i1 = (if negate then i + 1 else i)
            in case match_char_class_loop pattern i1 True False c of
                 (i2, matched) \<Rightarrow>
                   if i2 \<ge> length pattern then (False, pi)
                   else (if negate then \<not> matched else matched, i2 + 1)))"

function skip_stars :: "string \<Rightarrow> nat \<Rightarrow> nat" where
  "skip_stars pattern pi =
     (if pi < length pattern \<and> pattern ! pi = CHR ''*'' then skip_stars pattern (pi + 1) else pi)"
  by pat_completeness auto
termination
  by (relation "measure (\<lambda>(pattern, pi). length pattern - pi)") auto

declare skip_stars.simps [simp del]

text \<open>
  The main loop of \<open>glob_match\<close>. \<open>star_pi\<close> and \<open>star_si\<close> are set together; their
  sentinel \<open>(size_t)-1\<close> is \<open>None\<close>.
\<close>

function glob_match_loop :: "string \<Rightarrow> string \<Rightarrow> nat \<Rightarrow> nat \<Rightarrow> (nat \<times> nat) option \<Rightarrow> bool" where
  "glob_match_loop pattern str pi si star =
     (if si < length str then
        (if pi < length pattern \<and> pattern ! pi = CHR ''*'' then
           glob_match_loop pattern str (pi + 1) si (Some (pi, si))
         else if pi < length pattern \<and> (pattern ! pi = CHR ''?'' \<or> pattern ! pi = str ! si) then
           glob_match_loop pattern str (pi + 1) (si + 1) star
         else if pi < length pattern \<and> pattern ! pi = CHR ''[''
                 \<and> fst (match_char_class pattern pi (str ! si)) then
           glob_match_loop pattern str (snd (match_char_class pattern pi (str ! si))) (si + 1) star
         else (case star of
                 Some (star_pi, star_si) \<Rightarrow>
                   glob_match_loop pattern str (star_pi + 1) (star_si + 1)
                     (Some (star_pi, star_si + 1))
               | None \<Rightarrow> False))
      else skip_stars pattern pi = length pattern)"
  by pat_completeness auto
termination
proof (relation "measures
    [\<lambda>(pattern, str, pi, si, star).
        (case star of
           None \<Rightarrow> length str + 2
         | Some (star_pi, star_si) \<Rightarrow>
             if star_si \<le> si then length str - star_si else length str + 1),
     \<lambda>(pattern, str, pi, si, star). length str - si,
     \<lambda>(pattern, str, pi, si, star). length pattern - pi]", goal_cases)
  case 1
  show ?case by simp
next
  case (2 pattern str pi si star)
  then show ?case by (auto split: option.splits)
next
  case (3 pattern str pi si star)
  then show ?case by (auto split: option.splits)
next
  case (4 pattern str pi si star)
  then show ?case by (auto split: option.splits)
next
  case (5 pattern str pi si star x2 star_pi star_si)
  from \<open>si < length str\<close>
  have "length str - Suc star_si
      < (if star_si \<le> si then length str - star_si else length str + 1)"
    by (simp split: if_splits) arith
  moreover from 5 have "x2 = (star_pi, star_si)" and "star = Some x2"
    by simp_all
  ultimately show ?case by simp
qed

declare glob_match_loop.simps [simp del]

definition glob_match :: "string \<Rightarrow> string \<Rightarrow> bool" where
  "glob_match pattern str = glob_match_loop pattern str 0 0 None"

section \<open>commands.c: the command handlers and the dispatcher\<close>

definition INT64_MAX :: "64 word" where
  "INT64_MAX = 0x7FFFFFFFFFFFFFFF"

definition INT64_MIN :: "64 word" where
  "INT64_MIN = 0x8000000000000000"

text \<open>The division \<open>/\<close> of C on \<open>int64_t\<close> truncates towards zero.\<close>

definition sdiv64 :: "64 word \<Rightarrow> 64 word \<Rightarrow> 64 word" where
  "sdiv64 a b = word_of_int (sgn (sint a) * sgn (sint b) * (\<bar>sint a\<bar> div \<bar>sint b\<bar>))"

text \<open>
  \<open>parse_int64\<close>. The block \<open>if (negative) { if (...) { } }\<close> of the source has an empty
  body and no effect; only a non-negative value is checked for overflow.
\<close>

fun parse_int64_loop :: "string \<Rightarrow> bool \<Rightarrow> 64 word \<Rightarrow> 64 word option" where
  "parse_int64_loop [] negative result = Some result"
| "parse_int64_loop (c # cs) negative result =
     (if (of_char c :: nat) < 48 \<or> (of_char c :: nat) > 57 then None
      else
        (let digit = (of_char c - 48 :: 64 word)
         in if \<not> negative \<and> sdiv64 (INT64_MAX - digit) 10 <s result then None
            else parse_int64_loop cs negative (result * 10 + digit)))"

definition parse_int64 :: "string \<Rightarrow> 64 word option" where
  "parse_int64 data =
     (if length data = 0 then None
      else if hd data = CHR ''-'' then
        (if length data = 1 then None
         else (case parse_int64_loop (tl data) True 0 of
                 None \<Rightarrow> None
               | Some result \<Rightarrow> Some (- result)))
      else parse_int64_loop data False 0)"

text \<open>The member \<open>str\<close> of the union in \<open>resp_value_t\<close>.\<close>

fun str_of :: "resp_value \<Rightarrow> rstr_t" where
  "str_of (RESP_SIMPLE_STRING s) = s"
| "str_of (RESP_ERROR s) = s"
| "str_of (RESP_BULK_STRING s) = s"
| "str_of _ = []"



text \<open>
  A handler gets the client, the store, the argument vector (\<open>argc\<close> is its length) and
  the clock reading; it returns the client and the store. Its local \<open>expire_at\<close> is named
  \<open>expire_ms\<close> here (\<open>expire_at\<close> is the field of an entry). \<open>None\<close>: it does not return
  (see \<open>resize_find_slot\<close>). The one reading stands for every read of the clock that the
  handler makes; \<open>cmd_ttl\<close>, whose replies depend on the order of its reads, takes one
  reading for each of them, and the command table passes it the same reading four times.
\<close>

type_synonym cmd_handler_t =
  "client_t \<Rightarrow> hashtable_t \<Rightarrow> resp_value list \<Rightarrow> 64 word \<Rightarrow> (client_t \<times> hashtable_t) option"










text \<open>
  \<open>cmd_ttl\<close> reads the clock up to four times: inside \<open>ht_exists\<close>, inside
  \<open>ht_get_expire\<close>, for its local \<open>now\<close>, and inside \<open>ht_delete\<close>. The four readings are
  its last four arguments, in this order.
\<close>

definition cmd_ttl ::
  "client_t \<Rightarrow> hashtable_t \<Rightarrow> resp_value list \<Rightarrow> 64 word \<Rightarrow> 64 word \<Rightarrow> 64 word \<Rightarrow> 64 word
     \<Rightarrow> (client_t \<times> hashtable_t) option"
where
  "cmd_ttl client store args t_exists t_get_expire now t_delete =
     (case ht_exists store (str_of (args ! 1)) t_exists of
        (store1, found) \<Rightarrow>
          if \<not> found then Some (resp_write_integer client (- 2), store1)
          else
            (case ht_get_expire store1 (str_of (args ! 1)) t_get_expire of
               (store2, expire_ms) \<Rightarrow>
                 if expire_ms = - 1 then Some (resp_write_integer client (- 1), store2)
                 else
                   (let remaining_ms = expire_ms - now
                    in if remaining_ms \<le>s 0 then
                         Some (resp_write_integer client (- 2),
                               fst (ht_delete store2 (str_of (args ! 1)) t_delete))
                       else
                         (let seconds = sdiv64 (remaining_ms + 999) 1000
                          in Some (resp_write_integer client seconds, store2)))))"


definition cmd_incr :: cmd_handler_t where
  "cmd_incr client store args now =
     (let k = str_of (args ! 1)
      in case ht_get store k now of
           (store1, valp) \<Rightarrow>
             (case (case valp of
                      None \<Rightarrow> (store1, Some (0, - 1))
                    | Some slot \<Rightarrow>
                        (case ht_get_expire store1 k now of
                           (store2, expire_ms) \<Rightarrow>
                             (store2,
                              case parse_int64 (val (entries store2 ! slot)) of
                                None \<Rightarrow> None
                              | Some current \<Rightarrow> Some (current, expire_ms)))) of
                (store2, None) \<Rightarrow>
                  Some (resp_write_error client ''ERR value is not an integer or out of range'',
                        store2)
              | (store2, Some (current, expire_ms)) \<Rightarrow>
                  if current = INT64_MAX then
                    Some (resp_write_error client ''ERR value is not an integer or out of range'',
                          store2)
                  else
                    (let current1 = current + 1;
                         new_val = dec_int (sint current1)
                     in case ht_set store2 k new_val now of
                          None \<Rightarrow> None
                        | Some (store3, new_key) \<Rightarrow>
                            Some (resp_write_integer client current1,
                                  if expire_ms \<noteq> - 1 then ht_set_expire store3 k expire_ms now
                                  else store3))))"










section \<open>Predicates used in the statements\<close>

text \<open>\<open>no_crlf s\<close>: no CR is immediately followed by LF in \<open>s\<close>.\<close>

fun no_crlf :: "string \<Rightarrow> bool" where
  "no_crlf (a # b # r) = (\<not> (a = CR \<and> b = LF) \<and> no_crlf (b # r))"
| "no_crlf _ = True"

definition prefix_stable :: "(string \<Rightarrow> parse_result) \<Rightarrow> string \<Rightarrow> resp_value \<Rightarrow> nat \<Rightarrow> bool" where
  "prefix_stable f buf v n =
     (0 < n \<and> n \<le> length buf \<and>
      (\<forall>m. (n \<le> m \<longrightarrow> f (take m buf) = Parsed v n) \<and>
           (m < n \<longrightarrow> f (take m buf) = NeedMore)))"

definition loop_stable ::
  "string \<Rightarrow> int \<Rightarrow> nat \<Rightarrow> nat \<Rightarrow> resp_value list \<Rightarrow> resp_value \<Rightarrow> nat \<Rightarrow> bool" where
  "loop_stable buf cn i consumed elements v n =
     (consumed \<le> n \<and> n \<le> length buf \<and>
      (\<forall>m. (n \<le> m \<longrightarrow>
              parse_array_loop (take m buf) cn i consumed elements = Parsed v n) \<and>
           (m < n \<longrightarrow> int i < cn \<longrightarrow>
              parse_array_loop (take m buf) cn i consumed elements = NeedMore)))"

text \<open>\<open>client_init\<close> (client.c): no socket, empty buffers.\<close>

definition client_init :: client_t where
  "client_init = \<lparr>fd = - 1, read_buf = [], write_buf = []\<rparr>"

text \<open>
  Modelled from the spec: the sources have one writer per kind of value and no function
  that serializes a whole wire value; an array is written by its caller as the header
  "followed by that many serialized values" (as \<open>cmd_keys\<close> does for bulk strings).
  \<open>resp_write_value\<close> is that composition of the writers of resp.c.
\<close>

fun resp_write_value :: "client_t \<Rightarrow> resp_value \<Rightarrow> client_t" where
  "resp_write_value c (RESP_SIMPLE_STRING s) = resp_write_simple_string c s"
| "resp_write_value c (RESP_ERROR s) = resp_write_error c s"
| "resp_write_value c (RESP_INTEGER i) = resp_write_integer c i"
| "resp_write_value c (RESP_BULK_STRING s) = resp_write_bulk_string c s"
| "resp_write_value c RESP_NULL_BULK_STRING = resp_write_null_bulk_string c"
| "resp_write_value c (RESP_ARRAY vs) =
     foldl resp_write_value (resp_write_array_header c (int (length vs))) vs"

text \<open>
  \<open>wire_ok v\<close>: the simple strings and errors of \<open>v\<close> are C strings (no NUL byte) without
  a CR LF pair; bulk strings are arbitrary.
\<close>

fun wire_ok :: "resp_value \<Rightarrow> bool" where
  "wire_ok (RESP_SIMPLE_STRING s) = (CHR 0x00 \<notin> set s \<and> no_crlf s)"
| "wire_ok (RESP_ERROR s) = (CHR 0x00 \<notin> set s \<and> no_crlf s)"
| "wire_ok (RESP_ARRAY vs) = list_all wire_ok vs"
| "wire_ok _ = True"

text \<open>\<open>wire v\<close>: the bytes that \<open>resp_write_value\<close> appends for \<open>v\<close>.\<close>

fun wire :: "resp_value \<Rightarrow> string" where
  "wire (RESP_SIMPLE_STRING s) = CHR ''+'' # c_str s @ [CR, LF]"
| "wire (RESP_ERROR s) = CHR ''-'' # c_str s @ [CR, LF]"
| "wire (RESP_INTEGER i) = CHR '':'' # dec_int (sint i) @ [CR, LF]"
| "wire (RESP_BULK_STRING s) = CHR ''$'' # dec_nat (length s) @ [CR, LF] @ s @ [CR, LF]"
| "wire RESP_NULL_BULK_STRING = ''$-1'' @ [CR, LF]"
| "wire (RESP_ARRAY vs) =
     CHR ''*'' # dec_int (int (length vs)) @ [CR, LF] @ concat (map wire vs)"

text \<open>
  The probe sequence of a key: \<open>slot_of cap k i\<close> is the slot that \<open>probe\<close> reads at
  step \<open>i\<close>. A step is \<open>passed\<close> when its slot holds a tombstone or another key, and
  \<open>chain_to es cap k s\<close> says that the sequence of \<open>k\<close> reaches \<open>s\<close> over passed slots
  only.
\<close>

definition slot_of :: "nat \<Rightarrow> rstr_t \<Rightarrow> nat \<Rightarrow> nat" where
  "slot_of cap k i = ((unat (fnv1a_hash k) AND (cap - 1)) + i) AND (cap - 1)"

definition passed :: "ht_entry_t list \<Rightarrow> nat \<Rightarrow> rstr_t \<Rightarrow> nat \<Rightarrow> bool" where
  "passed es cap k j =
     (state (es ! slot_of cap k j) = ENTRY_TOMBSTONE
      \<or> (state (es ! slot_of cap k j) = ENTRY_OCCUPIED \<and> key (es ! slot_of cap k j) \<noteq> k))"

definition chain_to :: "ht_entry_t list \<Rightarrow> nat \<Rightarrow> rstr_t \<Rightarrow> nat \<Rightarrow> bool" where
  "chain_to es cap k s = (\<exists>d<cap. slot_of cap k d = s \<and> (\<forall>j<d. passed es cap k j))"

definition probe_chain_ok :: "hashtable_t \<Rightarrow> bool" where
  "probe_chain_ok ht =
     (\<forall>s<capacity ht. state (entries ht ! s) = ENTRY_OCCUPIED \<longrightarrow>
        chain_to (entries ht) (capacity ht) (key (entries ht ! s)) s)"

definition occupied_count :: "ht_entry_t list \<Rightarrow> nat" where
  "occupied_count es = length (filter (\<lambda>e. state e = ENTRY_OCCUPIED) es)"

definition tombstone_count :: "ht_entry_t list \<Rightarrow> nat" where
  "tombstone_count es = length (filter (\<lambda>e. state e = ENTRY_TOMBSTONE) es)"

definition counters_ok :: "hashtable_t \<Rightarrow> bool" where
  "counters_ok ht =
     (count ht = occupied_count (entries ht)
      \<and> used ht = occupied_count (entries ht) + tombstone_count (entries ht)
      \<and> count ht \<le> used ht \<and> used ht \<le> capacity ht)"

definition ht_inv :: "hashtable_t \<Rightarrow> bool" where
  "ht_inv ht =
     ((\<exists>m\<ge>2. capacity ht = 2 ^ m) \<and> length (entries ht) = capacity ht
      \<and> counters_ok ht \<and> used ht < capacity ht \<and> probe_chain_ok ht)"

definition scan_ok :: "hashtable_t \<Rightarrow> rstr_t \<Rightarrow> nat \<Rightarrow> bool" where
  "scan_ok ht k d = (d \<le> capacity ht \<and> (\<forall>j<d. passed (entries ht) (capacity ht) k j))"

definition hit :: "hashtable_t \<Rightarrow> rstr_t \<Rightarrow> nat \<Rightarrow> bool" where
  "hit ht k d =
     (state (entries ht ! slot_of (capacity ht) k d) = ENTRY_OCCUPIED
      \<and> key (entries ht ! slot_of (capacity ht) k d) = k)"

definition cand :: "hashtable_t \<Rightarrow> rstr_t \<Rightarrow> nat \<Rightarrow> nat \<Rightarrow> bool" where
  "cand ht k d slot =
     (slot = slot_of (capacity ht) k d
      \<or> (\<exists>t<d. slot = slot_of (capacity ht) k t \<and> state (entries ht ! slot) = ENTRY_TOMBSTONE))"

definition tombstoned :: "hashtable_t \<Rightarrow> nat \<Rightarrow> hashtable_t" where
  "tombstoned ht s =
     ht\<lparr>entries := (entries ht)[s := entry_free (entries ht ! s)], count := count ht - 1\<rparr>"

definition probe_result ::
  "hashtable_t \<Rightarrow> rstr_t \<Rightarrow> 64 word \<Rightarrow> hashtable_t \<times> nat \<times> bool \<Rightarrow> bool" where
  "probe_result ht k now r =
     ((\<exists>d<capacity ht. scan_ok ht k d \<and> hit ht k d
          \<and> \<not> is_expired now (entries ht ! slot_of (capacity ht) k d)
          \<and> r = (ht, slot_of (capacity ht) k d, True))
      \<or> (\<exists>d<capacity ht. \<exists>slot. scan_ok ht k d
          \<and> state (entries ht ! slot_of (capacity ht) k d) = ENTRY_EMPTY
          \<and> cand ht k d slot \<and> r = (ht, slot, False))
      \<or> (\<exists>d<capacity ht. \<exists>slot. scan_ok ht k d \<and> hit ht k d
          \<and> is_expired now (entries ht ! slot_of (capacity ht) k d)
          \<and> cand ht k d slot
          \<and> r = (tombstoned ht (slot_of (capacity ht) k d), slot, False))
      \<or> (scan_ok ht k (capacity ht) \<and> (\<exists>slot. r = (ht, slot, False))))"

definition ft_ok :: "hashtable_t \<Rightarrow> rstr_t \<Rightarrow> nat \<Rightarrow> nat option \<Rightarrow> bool" where
  "ft_ok ht k i ft =
     (case ft of
        None \<Rightarrow> True
      | Some t \<Rightarrow> \<exists>t'<i. t = slot_of (capacity ht) k t' \<and> state (entries ht ! t) = ENTRY_TOMBSTONE)"

definition insert_ready :: "hashtable_t \<Rightarrow> rstr_t \<Rightarrow> nat \<Rightarrow> bool" where
  "insert_ready ht k slot =
     (slot < capacity ht \<and> state (entries ht ! slot) \<noteq> ENTRY_OCCUPIED
      \<and> chain_to (entries ht) (capacity ht) k slot
      \<and> (\<forall>t<capacity ht. state (entries ht ! t) = ENTRY_OCCUPIED \<longrightarrow> key (entries ht ! t) \<noteq> k))"

definition stored :: "hashtable_t \<Rightarrow> rstr_t \<Rightarrow> nat \<Rightarrow> bool" where
  "stored ht k s =
     (s < capacity ht \<and> state (entries ht ! s) = ENTRY_OCCUPIED \<and> key (entries ht ! s) = k)"

definition fresh_table :: "ht_entry_t list \<Rightarrow> nat \<Rightarrow> bool" where
  "fresh_table es cap =
     (length es = cap \<and> (\<forall>s<cap. state (es ! s) \<noteq> ENTRY_TOMBSTONE)
      \<and> (\<forall>s<cap. state (es ! s) = ENTRY_OCCUPIED \<longrightarrow> chain_to es cap (key (es ! s)) s))"

datatype ht_op =
    OpSet rstr_t rstr_t "64 word"
  | OpGet rstr_t "64 word"
  | OpExists rstr_t "64 word"
  | OpDelete rstr_t "64 word"
  | OpSetExpire rstr_t "64 word" "64 word"
  | OpGetExpire rstr_t "64 word"
  | OpIterNext nat "64 word"
  | OpResize

fun ht_apply :: "ht_op \<Rightarrow> hashtable_t \<Rightarrow> hashtable_t option" where
  "ht_apply (OpSet k v now) ht = map_option fst (ht_set ht k v now)"
| "ht_apply (OpGet k now) ht = Some (fst (ht_get ht k now))"
| "ht_apply (OpExists k now) ht = Some (fst (ht_exists ht k now))"
| "ht_apply (OpDelete k now) ht = Some (fst (ht_delete ht k now))"
| "ht_apply (OpSetExpire k expire_at_ms now) ht = Some (ht_set_expire ht k expire_at_ms now)"
| "ht_apply (OpGetExpire k now) ht = Some (fst (ht_get_expire ht k now))"
| "ht_apply (OpIterNext index now) ht = Some (fst (ht_iter_next ht index now))"
| "ht_apply OpResize ht = ht_resize ht"

fun ht_run :: "hashtable_t \<Rightarrow> ht_op list \<Rightarrow> hashtable_t option" where
  "ht_run ht [] = Some ht"
| "ht_run ht (opn # ops) =
     (case ht_apply opn ht of None \<Rightarrow> None | Some ht' \<Rightarrow> ht_run ht' ops)"

chapter \<open>Verification\<close>

section \<open>The wire codec\<close>

lemmas resp_eval =
  resp_parse.simps parse_array.simps parse_array_loop.simps parse_line_def
  parse_line_from.simps parse_integer_value_def parse_bulk_string_def int_ret_def
  int_of_size_def Let_def

text \<open>
  Claim C5 (integer fields that are empty, hold a non-digit or overflow a signed 64-bit
  integer are Malformed) does not hold for overflowing fields: \<open>parse_integer_value\<close>
  has no overflow check. The field \<open>18446744073709551617\<close> (that is \<open>2^64 + 1\<close>) is
  accepted and decoded as the integer 1.
\<close>

theorem resp_parse_overflowing_integer_field:
  "resp_parse ('':18446744073709551617'' @ [CR, LF]) = Parsed (RESP_INTEGER 1) 23"
  by (simp add: resp_eval)

subsection \<open>Lines and return values\<close>

lemma int_of_size_small: "n < 2 ^ 31 \<Longrightarrow> int_of_size n = int n"
  unfolding int_of_size_def
  by (simp add: signed_of_nat signed_take_bit_int_eq_self)

lemma int_ret_small:
  "n < 2 ^ 31 \<Longrightarrow> int_ret n v = (if n = 0 then NeedMore else Parsed v n)"
  by (simp add: int_ret_def int_of_size_small)

lemma int_ret_Parsed:
  assumes "int_ret n v = Parsed v' n'"
  shows "0 < n' \<and> n' < 2 ^ 31 \<and> v' = v"
proof -
  have "int_of_size n < 2 ^ 31"
    unfolding int_of_size_def using sint_lt [of "word_of_nat n :: 32 word"] by simp
  with assms show ?thesis
    by (auto simp: int_ret_def Let_def split: if_splits)
qed

lemma parse_line_from_Cons:
  "parse_line_from (a # buf) (Suc i) = map_option Suc (parse_line_from buf i)"
proof (induction buf i rule: parse_line_from.induct)
  case (1 buf i)
  show ?case
  proof (cases "i + 1 < length buf")
    case True
    then show ?thesis
      using 1 by (subst parse_line_from.simps, subst (2) parse_line_from.simps) auto
  next
    case False
    then show ?thesis
      by (subst parse_line_from.simps, subst (2) parse_line_from.simps) auto
  qed
qed

lemma parse_line_Nil [simp]: "parse_line [] = None"
  by (simp add: parse_line_def parse_line_from.simps)

lemma parse_line_single [simp]: "parse_line [a] = None"
  by (simp add: parse_line_def parse_line_from.simps)

lemma parse_line_Cons2:
  "parse_line (a # b # r) =
     (if a = CR \<and> b = LF then Some 0 else map_option Suc (parse_line (b # r)))"
  unfolding parse_line_def
  by (subst parse_line_from.simps) (simp add: parse_line_from_Cons)

lemma parse_line_append_crlf:
  "no_crlf s \<Longrightarrow> parse_line (s @ CR # LF # rest) = Some (length s)"
  by (induction s rule: no_crlf.induct) (auto simp: parse_line_Cons2)

lemma parse_line_take_Some:
  "parse_line buf = Some n \<Longrightarrow>
     parse_line (take m buf) = (if n + 2 \<le> m then Some n else None)"
proof (induction buf arbitrary: m n rule: no_crlf.induct)
  case (1 a b r)
  show ?case
  proof (cases m)
    case 0
    then show ?thesis by simp
  next
    case (Suc m1)
    show ?thesis
    proof (cases m1)
      case 0
      with Suc show ?thesis by simp
    next
      case (Suc m2)
      with \<open>m = Suc m1\<close> "1.prems" "1.IH" [of _ "Suc m2"] show ?thesis
        by (auto simp: parse_line_Cons2 split: if_splits)
    qed
  qed
qed simp_all

lemma parse_line_take_None:
  "parse_line buf = None \<Longrightarrow> parse_line (take m buf) = None"
proof (induction buf arbitrary: m rule: no_crlf.induct)
  case (1 a b r)
  show ?case
  proof (cases m)
    case 0
    then show ?thesis by simp
  next
    case (Suc m1)
    show ?thesis
    proof (cases m1)
      case 0
      with Suc show ?thesis by simp
    next
      case (Suc m2)
      with \<open>m = Suc m1\<close> "1.prems" "1.IH" [of "Suc m2"] show ?thesis
        by (auto simp: parse_line_Cons2 split: if_splits)
    qed
  qed
next
  case "2_1"
  then show ?case by simp
next
  case "2_2"
  then show ?case by (cases m) simp_all
qed

lemma parse_bulk_string_prefix:
  assumes res: "parse_bulk_string buf = Parsed v n" and short: "length buf + 1 < 2 ^ 31"
  shows "0 < n \<and> n \<le> length buf + 1 \<and>
         (\<forall>m. (n \<le> m + 1 \<longrightarrow> parse_bulk_string (take m buf) = Parsed v n) \<and>
              (m + 1 < n \<longrightarrow> parse_bulk_string (take m buf) = NeedMore))"
proof -
  from res obtain line_len where ll: "parse_line buf = Some line_len"
    by (auto simp: parse_bulk_string_def split: option.splits)
  from res ll obtain slen where sl: "parse_integer_value (take line_len buf) = Some slen"
    by (auto simp: parse_bulk_string_def split: option.splits)
  from parse_line_bound [OF ll] have llb: "line_len + 2 \<le> length buf"
    by simp
  have pre_line: "parse_line (take m buf) = (if line_len + 2 \<le> m then Some line_len else None)" for m
    by (rule parse_line_take_Some [OF ll])
  have pre_int: "line_len + 2 \<le> m \<Longrightarrow>
      parse_integer_value (take line_len (take m buf)) = Some slen" for m
    using sl by (simp add: min_def)
  show ?thesis
  proof (cases "slen = - 1")
    case True
    with res ll sl short llb have n: "n = line_len + 3" and v: "v = RESP_NULL_BULK_STRING"
      by (auto simp: parse_bulk_string_def int_ret_small)
    show ?thesis
      using n v llb short True pre_int
      by (auto simp: parse_bulk_string_def pre_line int_ret_small)
  next
    case False
    with res ll sl have nonneg: "\<not> slen <s 0"
      by (auto simp: parse_bulk_string_def split: if_splits)
    from res ll sl False nonneg have enough: "line_len + 2 + unat slen + 2 \<le> length buf"
      by (auto simp: parse_bulk_string_def Let_def split: if_splits)
    with res ll sl False nonneg short
    have n: "n = line_len + 5 + unat slen"
      and v: "v = RESP_BULK_STRING (take (unat slen) (drop (line_len + 2) buf))"
      by (auto simp: parse_bulk_string_def Let_def int_ret_small)
    have "parse_bulk_string (take m buf) = Parsed v n" if "n \<le> m + 1" for m
    proof -
      from that n have m: "line_len + 2 + unat slen + 2 \<le> m" by simp
      then have "take (unat slen) (drop (line_len + 2) (take m buf))
          = take (unat slen) (drop (line_len + 2) buf)"
        by (simp add: drop_take min_def)
      with m enough short False nonneg n v pre_int [of m] show ?thesis
        by (simp add: parse_bulk_string_def pre_line Let_def int_ret_small min_def)
    qed
    moreover have "parse_bulk_string (take m buf) = NeedMore" if "m + 1 < n" for m
    proof (cases "line_len + 2 \<le> m")
      case True
      with that n enough False nonneg pre_int [of m] show ?thesis
        by (simp add: parse_bulk_string_def pre_line Let_def min_def)
    next
      case False
      then show ?thesis
        by (simp add: parse_bulk_string_def pre_line)
    qed
    ultimately show ?thesis
      using n enough by auto
  qed
qed

lemma resp_parse_Nil [simp]: "resp_parse [] = NeedMore"
  by (simp add: resp_parse.simps)

lemma parse_array_Nil [simp]: "parse_array [] = NeedMore"
  by (simp add: parse_array.simps)

lemma resp_parse_Cons:
  "resp_parse (c # rest) =
     (if c = CHR ''+'' \<or> c = CHR ''-'' then
        (case parse_line rest of
           None \<Rightarrow> NeedMore
         | Some line_len \<Rightarrow>
             int_ret (1 + line_len + 2)
               (if c = CHR ''+'' then RESP_SIMPLE_STRING (take line_len rest)
                else RESP_ERROR (take line_len rest)))
      else if c = CHR '':'' then
        (case parse_line rest of
           None \<Rightarrow> NeedMore
         | Some line_len \<Rightarrow>
             (case parse_integer_value (take line_len rest) of
                None \<Rightarrow> Malformed
              | Some ival \<Rightarrow> int_ret (1 + line_len + 2) (RESP_INTEGER ival)))
      else if c = CHR ''$'' then parse_bulk_string rest
      else if c = CHR ''*'' then parse_array (c # rest)
      else Malformed)"
  by (subst resp_parse.simps) (simp split: option.splits)

lemma parse_array_Cons:
  "parse_array (c # rest) =
     (case parse_line rest of
        None \<Rightarrow> NeedMore
      | Some line_len \<Rightarrow>
          (case parse_integer_value (take line_len rest) of
             None \<Rightarrow> Malformed
           | Some cnt \<Rightarrow>
               if cnt <s 0 then Malformed
               else if cnt = 0 then int_ret (1 + line_len + 2) (RESP_ARRAY [])
               else parse_array_loop (c # rest) (sint cnt) 0 (1 + line_len + 2) []))"
  by (subst parse_array.simps) (simp split: option.splits)

lemma line_frame_prefix:
  assumes res: "resp_parse (c # rest) = Parsed v n"
    and tag: "c = CHR ''+'' \<or> c = CHR ''-'' \<or> c = CHR '':''"
    and short: "length (c # rest) < 2 ^ 31"
  shows "prefix_stable resp_parse (c # rest) v n"
proof -
  from res tag obtain ll where ll: "parse_line rest = Some ll"
    by (auto simp: resp_parse_Cons split: option.splits if_splits)
  from parse_line_bound [OF ll] have llb: "ll + 2 \<le> length rest"
    by simp
  with short have small: "1 + ll + 2 < (2::nat) ^ 31"
    by simp
  from res tag ll small have n: "n = ll + 3"
    by (auto simp: resp_parse_Cons int_ret_small split: option.splits if_splits)
  have ge: "resp_parse (take m (c # rest)) = Parsed v n" if "n \<le> m" for m
  proof -
    from that n obtain m' where m: "m = Suc m'" and m': "ll + 2 \<le> m'"
      by (cases m) auto
    from m' have "take ll (take m' rest) = take ll rest"
      by (simp add: min_def)
    with res tag ll m m' small show ?thesis
      by (auto simp: resp_parse_Cons parse_line_take_Some [OF ll] split: option.splits)
  qed
  have lt: "resp_parse (take m (c # rest)) = NeedMore" if "m < n" for m
  proof (cases m)
    case (Suc m')
    with that n have "\<not> ll + 2 \<le> m'"
      by simp
    with tag Suc show ?thesis
      by (auto simp: resp_parse_Cons parse_line_take_Some [OF ll])
  qed simp
  from n llb ge lt show ?thesis
    by (simp add: prefix_stable_def)
qed

lemma bulk_frame_prefix:
  assumes res: "resp_parse (CHR ''$'' # rest) = Parsed v n"
    and short: "length (CHR ''$'' # rest) < 2 ^ 31"
  shows "prefix_stable resp_parse (CHR ''$'' # rest) v n"
proof -
  from res have pb: "parse_bulk_string rest = Parsed v n"
    by (simp add: resp_parse_Cons)
  from short have "length rest + 1 < 2 ^ 31"
    by simp
  note pre = parse_bulk_string_prefix [OF pb this]
  have ge: "resp_parse (take m (CHR ''$'' # rest)) = Parsed v n" if "n \<le> m" for m
  proof -
    from that pre obtain m' where m: "m = Suc m'" and "n \<le> m' + 1"
      by (cases m) auto
    with pre show ?thesis
      by (simp add: resp_parse_Cons)
  qed
  have lt: "resp_parse (take m (CHR ''$'' # rest)) = NeedMore" if "m < n" for m
  proof (cases m)
    case (Suc m')
    with that have "m' + 1 < n"
      by simp
    with pre Suc show ?thesis
      by (simp add: resp_parse_Cons)
  qed simp
  from pre ge lt show ?thesis
    by (simp add: prefix_stable_def)
qed

lemma resp_parse_prefix_aux:
  "length buf < 2 ^ 31 \<Longrightarrow> resp_parse buf = Parsed v n \<Longrightarrow> prefix_stable resp_parse buf v n"
  "length buf < 2 ^ 31 \<Longrightarrow> parse_array buf = Parsed v n \<Longrightarrow> prefix_stable parse_array buf v n"
  "length buf < 2 ^ 31 \<Longrightarrow> 0 < consumed \<Longrightarrow> consumed \<le> length buf \<Longrightarrow>
     parse_array_loop buf cn i consumed elements = Parsed v n \<Longrightarrow>
     loop_stable buf cn i consumed elements v n"
proof (induction buf and buf and buf cn i consumed elements
    arbitrary: v n and v n and v n
    rule: resp_parse_parse_array_parse_array_loop.induct)
  case (1 buf)
  note short = \<open>length buf < 2 ^ 31\<close> and res = \<open>resp_parse buf = Parsed v n\<close>
  from res obtain c rest where buf: "buf = c # rest"
    by (cases buf) auto
  consider (line) "c = CHR ''+'' \<or> c = CHR ''-'' \<or> c = CHR '':''"
    | (bulk) "c = CHR ''$''"
    | (arr) "c = CHR ''*''"
    | (other) "c \<noteq> CHR ''+''" "c \<noteq> CHR ''-''" "c \<noteq> CHR '':''" "c \<noteq> CHR ''$''" "c \<noteq> CHR ''*''"
    by blast
  then show ?case
  proof cases
    case line
    with res short buf show ?thesis
      using line_frame_prefix by blast
  next
    case bulk
    with res short buf show ?thesis
      using bulk_frame_prefix by blast
  next
    case arr
    with res buf have pa: "parse_array buf = Parsed v n"
      by (simp add: resp_parse_Cons)
    from arr buf have "prefix_stable parse_array buf v n"
      by (intro "1.IH" short pa) simp_all
    then have a: "0 < n" "n \<le> length buf"
      and b: "\<And>m. n \<le> m \<Longrightarrow> parse_array (take m buf) = Parsed v n"
      and c: "\<And>m. m < n \<Longrightarrow> parse_array (take m buf) = NeedMore"
      by (simp_all add: prefix_stable_def)
    have "resp_parse (take m buf) = Parsed v n" if "n \<le> m" for m
    proof (cases m)
      case 0
      with that a show ?thesis by simp
    next
      case (Suc m')
      with b [OF that] arr buf show ?thesis
        by (simp add: resp_parse_Cons)
    qed
    moreover have "resp_parse (take m buf) = NeedMore" if "m < n" for m
    proof (cases m)
      case 0
      then show ?thesis by simp
    next
      case (Suc m')
      with c [OF that] arr buf show ?thesis
        by (simp add: resp_parse_Cons)
    qed
    ultimately show ?thesis
      using a by (simp add: prefix_stable_def)
  next
    case other
    with res buf show ?thesis
      by (simp add: resp_parse_Cons)
  qed
next
  case (2 buf)
  note short = \<open>length buf < 2 ^ 31\<close> and res = \<open>parse_array buf = Parsed v n\<close>
  from res obtain c rest where buf: "buf = c # rest"
    by (cases buf) auto
  from res buf obtain ll where ll: "parse_line rest = Some ll"
    by (auto simp: parse_array_Cons split: option.splits)
  from res buf ll obtain cnt where cnt: "parse_integer_value (take ll rest) = Some cnt"
    by (auto simp: parse_array_Cons split: option.splits)
  from res buf ll cnt have nonneg: "\<not> cnt <s 0"
    by (auto simp: parse_array_Cons split: if_splits)
  from parse_line_bound [OF ll] buf have llb: "ll + 3 \<le> length buf"
    by simp
  with short have small: "ll + 3 < (2::nat) ^ 31"
    by simp
  have unfold_take: "parse_array (take m buf) =
      (if ll + 3 \<le> m then
         (if cnt = 0 then int_ret (ll + 3) (RESP_ARRAY [])
          else parse_array_loop (take m buf) (sint cnt) 0 (ll + 3) [])
       else NeedMore)" for m
  proof (cases m)
    case 0
    then show ?thesis by simp
  next
    case (Suc m')
    have "take ll (take m' rest) = take ll rest" if "ll + 2 \<le> m'"
      using that by (simp add: min_def)
    with Suc buf cnt nonneg show ?thesis
      by (auto simp: parse_array_Cons parse_line_take_Some [OF ll] numeral_3_eq_3)
  qed
  show ?case
  proof (cases "cnt = 0")
    case True
    with res buf ll cnt nonneg small have "n = ll + 3" "v = RESP_ARRAY []"
      by (auto simp: parse_array_Cons int_ret_small)
    with llb True small show ?thesis
      by (auto simp: prefix_stable_def unfold_take int_ret_small)
  next
    case False
    with res buf ll cnt nonneg
    have loop: "parse_array_loop buf (sint cnt) 0 (1 + ll + 2) [] = Parsed v n"
      by (auto simp: parse_array_Cons)
    have "sint cnt \<noteq> 0"
      using False by (metis signed_eq_0_iff)
    with nonneg have pos: "int 0 < sint cnt"
      by (simp add: word_sless_alt)
    from buf ll cnt have "loop_stable buf (sint cnt) 0 (1 + ll + 2) [] v n"
      using llb by (intro "2.IH" [OF _ _ nonneg False short _ _ loop]) simp_all
    then have a: "ll + 3 \<le> n" "n \<le> length buf"
      and b: "\<And>m. n \<le> m \<Longrightarrow>
          parse_array_loop (take m buf) (sint cnt) 0 (ll + 3) [] = Parsed v n"
      and c: "\<And>m. m < n \<Longrightarrow>
          parse_array_loop (take m buf) (sint cnt) 0 (ll + 3) [] = NeedMore"
      using pos by (simp_all add: loop_stable_def numeral_3_eq_3)
    show ?thesis
      using a b c False by (auto simp: prefix_stable_def unfold_take)
  qed
next
  case (3 buf cn i consumed elements)
  note short = \<open>length buf < 2 ^ 31\<close> and cpos = \<open>0 < consumed\<close>
    and cle = \<open>consumed \<le> length buf\<close>
    and res = \<open>parse_array_loop buf cn i consumed elements = Parsed v n\<close>
  from short cle have small: "consumed < 2 ^ 31"
    by simp
  show ?case
  proof (cases "int i < cn")
    case False
    with res cpos small have "n = consumed" "v = RESP_ARRAY elements"
      by (subst (asm) parse_array_loop.simps, simp add: int_ret_small)+
    moreover have "parse_array_loop (take m buf) cn i consumed elements
        = Parsed (RESP_ARRAY elements) consumed" for m
      using False cpos small by (subst parse_array_loop.simps) (simp add: int_ret_small)
    ultimately show ?thesis
      using False cle by (simp add: loop_stable_def)
  next
    case True
    with res have lt: "\<not> length buf \<le> consumed"
      by (subst (asm) parse_array_loop.simps) (auto split: if_splits)
    from res True lt obtain w r where
      child: "resp_parse (drop consumed buf) = Parsed w r"
      and rest: "parse_array_loop buf cn (i + 1) (consumed + r) (elements @ [w]) = Parsed v n"
      by (subst (asm) parse_array_loop.simps) (auto split: parse_result.splits)
    from short have "length (drop consumed buf) < 2 ^ 31"
      by simp
    from "3.IH"(1) [OF True lt this child]
    have r: "0 < r" "r \<le> length (drop consumed buf)"
      and r_ge: "\<And>m. r \<le> m \<Longrightarrow> resp_parse (take m (drop consumed buf)) = Parsed w r"
      and r_lt: "\<And>m. m < r \<Longrightarrow> resp_parse (take m (drop consumed buf)) = NeedMore"
      by (simp_all add: prefix_stable_def)
    from r have cr: "0 < consumed + r" "consumed + r \<le> length buf"
      by simp_all
    from "3.IH"(2) [OF True lt child short cr rest]
    have n: "consumed + r \<le> n" "n \<le> length buf"
      and n_ge: "\<And>m. n \<le> m \<Longrightarrow>
          parse_array_loop (take m buf) cn (i + 1) (consumed + r) (elements @ [w]) = Parsed v n"
      and n_lt: "\<And>m. m < n \<Longrightarrow> int (i + 1) < cn \<Longrightarrow>
          parse_array_loop (take m buf) cn (i + 1) (consumed + r) (elements @ [w]) = NeedMore"
      by (simp_all add: loop_stable_def)
    have last: "n = consumed + r" if "\<not> int (i + 1) < cn"
    proof -
      from cr short have "consumed + r < 2 ^ 31"
        by simp
      with rest that cr show ?thesis
        by (subst (asm) parse_array_loop.simps) (auto simp: int_ret_small split: if_splits)
    qed
    have ge: "parse_array_loop (take m buf) cn i consumed elements = Parsed v n"
      if "n \<le> m" for m
    proof -
      from that n r have "r \<le> m - consumed" "consumed < m"
        by simp_all
      with r_ge [of "m - consumed"] n_ge [OF that] True lt show ?thesis
        by (subst parse_array_loop.simps) (simp add: drop_take min_def)
    qed
    have less: "parse_array_loop (take m buf) cn i consumed elements = NeedMore"
      if "m < n" for m
    proof (cases "m \<le> consumed")
      case True
      with \<open>int i < cn\<close> show ?thesis
        by (subst parse_array_loop.simps) simp
    next
      case gt: False
      show ?thesis
      proof (cases "m - consumed < r")
        case True
        with r_lt [OF True] gt \<open>int i < cn\<close> lt show ?thesis
          by (subst parse_array_loop.simps) (simp add: drop_take min_def)
      next
        case False
        then have ge': "r \<le> m - consumed"
          by simp
        with gt have "consumed + r \<le> m"
          by simp
        with that last have "int (i + 1) < cn"
          by fastforce
        from n_lt [OF that this] r_ge [OF ge'] gt \<open>int i < cn\<close> lt show ?thesis
          by (subst parse_array_loop.simps) (simp add: drop_take min_def)
      qed
    qed
    from n r ge less show ?thesis
      by (simp add: loop_stable_def)
  qed
qed

lemma parse_bulk_string_bound:
  "parse_bulk_string buf = Parsed v n \<Longrightarrow> n < 2 ^ 31"
  by (auto simp: parse_bulk_string_def Let_def split: option.splits if_splits
      dest: int_ret_Parsed)

lemma resp_parse_bound_aux:
  "resp_parse buf = Parsed v n \<Longrightarrow> n < 2 ^ 31"
  "parse_array buf = Parsed v n \<Longrightarrow> n < 2 ^ 31"
  "parse_array_loop buf cn i consumed elements = Parsed v n \<Longrightarrow> n < 2 ^ 31"
proof (induction buf and buf and buf cn i consumed elements
    arbitrary: v n and v n and v n
    rule: resp_parse_parse_array_parse_array_loop.induct)
  case (1 buf)
  from "1.prems" obtain c rest where buf: "buf = c # rest"
    by (cases buf) auto
  show ?case
  proof (cases "c = CHR ''*''")
    case True
    with "1.prems" buf have "parse_array buf = Parsed v n"
      by (simp add: resp_parse_Cons)
    with True buf show ?thesis
      by (intro "1.IH") simp_all
  next
    case False
    with "1.prems" buf show ?thesis
      by (auto simp: resp_parse_Cons split: option.splits if_splits
          dest: int_ret_Parsed parse_bulk_string_bound)
  qed
next
  case (2 buf)
  from "2.prems" show ?case
    by (subst (asm) parse_array.simps)
      (auto split: option.splits if_splits dest: int_ret_Parsed "2.IH")
next
  case (3 buf cn i consumed elements)
  from "3.prems" show ?case
    by (subst (asm) parse_array_loop.simps)
      (auto split: if_splits parse_result.splits dest: int_ret_Parsed "3.IH"(2))
qed

text \<open>
  Claim C2 (restartability). Let \<open>B\<close> parse as one complete frame that consumes exactly
  \<open>length B\<close> bytes, and let \<open>B = P @ S\<close>. Then parsing \<open>P\<close> alone returns NeedMore or a
  complete parse of at most \<open>length P\<close> bytes, never Malformed, and parsing \<open>P @ S\<close> gives
  the value and the byte count of \<open>B\<close>. More precisely, every proper prefix of \<open>B\<close> gives
  NeedMore.
\<close>

theorem resp_parse_restartable:
  assumes "resp_parse B = Parsed v (length B)" and "B = P @ S"
  shows "(resp_parse P = NeedMore \<or> (\<exists>n\<le>length P. resp_parse P = Parsed v n))
       \<and> resp_parse P \<noteq> Malformed
       \<and> resp_parse (P @ S) = Parsed v (length B)
       \<and> (S \<noteq> [] \<longrightarrow> resp_parse P = NeedMore)"
proof -
  from assms(1) have short: "length B < 2 ^ 31"
    by (rule resp_parse_bound_aux(1))
  from resp_parse_prefix_aux(1) [OF short assms(1)]
  have ge: "\<And>m. length B \<le> m \<Longrightarrow> resp_parse (take m B) = Parsed v (length B)"
    and lt: "\<And>m. m < length B \<Longrightarrow> resp_parse (take m B) = NeedMore"
    by (simp_all add: prefix_stable_def)
  have P: "P = take (length P) B"
    using assms(2) by simp
  show ?thesis
  proof (cases "S = []")
    case True
    with assms show ?thesis
      by auto
  next
    case False
    with assms(2) have "length P < length B"
      by simp
    from lt [OF this] P have "resp_parse P = NeedMore"
      by simp
    with assms show ?thesis
      by simp
  qed
qed

lemmas resp_eval2 = resp_eval word_sless_alt word_sle_eq

theorem resp_parse_restartable_witness:
  "resp_parse (''*1'' @ [CR, LF] @ ''$3'' @ [CR, LF] @ ''foo'' @ [CR, LF])
     = Parsed (RESP_ARRAY [RESP_BULK_STRING ''foo'']) 13
   \<and> resp_parse (''*1'' @ [CR, LF] @ ''$3'' @ [CR, LF] @ ''fo'') = NeedMore
   \<and> resp_parse ((''*1'' @ [CR, LF] @ ''$3'' @ [CR, LF] @ ''fo'') @ (''o'' @ [CR, LF]))
     = Parsed (RESP_ARRAY [RESP_BULK_STRING ''foo'']) 13"
proof -
  have whole: "resp_parse (''*1'' @ [CR, LF] @ ''$3'' @ [CR, LF] @ ''foo'' @ [CR, LF])
     = Parsed (RESP_ARRAY [RESP_BULK_STRING ''foo''])
         (length (''*1'' @ [CR, LF] @ ''$3'' @ [CR, LF] @ ''foo'' @ [CR, LF]))"
    by (simp add: resp_eval2)
  have split: "''*1'' @ [CR, LF] @ ''$3'' @ [CR, LF] @ ''foo'' @ [CR, LF]
     = (''*1'' @ [CR, LF] @ ''$3'' @ [CR, LF] @ ''fo'') @ (''o'' @ [CR, LF])"
    by simp
  from resp_parse_restartable [OF whole split] show ?thesis
    by simp
qed

lemma write_buf_append [simp]:
  "write_buf (client_write_append c data) = write_buf c @ data"
  by (simp add: client_write_append_def)

lemma write_buf_foldl:
  assumes "\<And>v c. v \<in> set vs \<Longrightarrow> write_buf (resp_write_value c v) = write_buf c @ wire v"
  shows "write_buf (foldl resp_write_value c vs) = write_buf c @ concat (map wire vs)"
  using assms by (induction vs arbitrary: c) simp_all

lemma write_buf_resp_write_value:
  "write_buf (resp_write_value c v) = write_buf c @ wire v"
proof (induction v arbitrary: c)
  case (RESP_ARRAY vs)
  then show ?case
    by (simp add: write_buf_foldl resp_write_array_header_def)
qed (simp_all add: resp_write_simple_string_def resp_write_error_def resp_write_integer_def
      resp_write_bulk_string_def resp_write_null_bulk_string_def)

lemma dec_nat_ne [simp]: "dec_nat n \<noteq> []"
  by (subst dec_nat.simps) simp

lemma dec_nat_digits:
  "c \<in> set (dec_nat n) \<Longrightarrow> 48 \<le> (of_char c :: nat) \<and> (of_char c :: nat) \<le> 57"
proof (induction n rule: dec_nat.induct)
  case (1 n)
  show ?case
  proof (cases "n < 10")
    case True
    with "1.prems" show ?thesis
      by (subst (asm) dec_nat.simps) simp
  next
    case False
    have "n mod 10 < 10" by simp
    then have "(48 + n mod 10) mod 256 = 48 + n mod 10"
      by simp
    with False "1.prems" "1.IH" show ?thesis
      by (subst (asm) dec_nat.simps) auto
  qed
qed

lemma parse_integer_digits_append:
  "parse_integer_digits (xs @ ys) acc =
     (case parse_integer_digits xs acc of
        None \<Rightarrow> None
      | Some r \<Rightarrow> parse_integer_digits ys r)"
  by (induction xs arbitrary: acc) simp_all

lemma digit_char_word:
  "d < 10 \<Longrightarrow> (of_char (char_of (48 + d :: nat)) :: 64 word) - 48 = of_nat d"
proof -
  assume "d < 10"
  then have "(48 + d) mod 256 = 48 + d"
    by simp
  then have "(of_char (char_of (48 + d)) :: nat) = 48 + d"
    by simp
  then have "(of_char (char_of (48 + d)) :: 64 word) = of_nat (48 + d)"
    by (metis of_nat_of_char)
  then show ?thesis
    by simp
qed

lemma parse_integer_digits_dec_nat:
  "parse_integer_digits (dec_nat n) acc = Some (acc * 10 ^ length (dec_nat n) + of_nat n)"
proof (induction n arbitrary: acc rule: dec_nat.induct)
  case (1 n)
  have d: "n mod 10 < 10" by simp
  then have m: "(48 + n mod 10) mod 256 = 48 + n mod 10"
    by simp
  show ?case
  proof (cases "n < 10")
    case True
    with digit_char_word [of n] show ?thesis
      by (subst (1 2) dec_nat.simps) simp
  next
    case False
    have "(of_nat n :: 64 word) = of_nat (n div 10) * 10 + of_nat (n mod 10)"
      by (metis mult.commute div_mult_mod_eq of_nat_add of_nat_mult of_nat_numeral)
    with False "1.IH" [OF False] m digit_char_word [OF d] show ?thesis
      by (subst (1 2) dec_nat.simps)
        (simp add: parse_integer_digits_append algebra_simps)
  qed
qed

lemma no_crlf_no_CR: "CR \<notin> set s \<Longrightarrow> no_crlf s"
  by (induction s rule: no_crlf.induct) auto

lemma dec_nat_no_CR: "CR \<notin> set (dec_nat n)"
  using dec_nat_digits [of CR n] by auto

lemma dec_nat_no_minus: "CHR ''-'' \<notin> set (dec_nat n)"
  using dec_nat_digits [of "CHR ''-''" n] by auto

lemma dec_int_no_CR: "CR \<notin> set (dec_int i)"
  by (simp add: dec_int_def dec_nat_no_CR)

lemma hd_dec_nat: "hd (dec_nat n) \<noteq> CHR ''-''"
  using dec_nat_no_minus [of n] hd_in_set [OF dec_nat_ne [of n]] by metis

lemma parse_integer_value_dec_int:
  "parse_integer_value (dec_int i) = Some (word_of_int i)"
proof (cases "i < 0")
  case True
  then have "(word_of_nat (nat (- i)) :: 64 word) = - word_of_int i"
    by (metis of_int_minus of_int_of_nat_eq nat_0_le neg_0_le_iff_le less_le)
  with True show ?thesis
    by (simp add: dec_int_def parse_integer_value_def parse_integer_digits_dec_nat)
next
  case False
  then have "(word_of_nat (nat i) :: 64 word) = word_of_int i"
    by (metis of_int_of_nat_eq nat_0_le not_less)
  with False hd_dec_nat [of "nat i"] show ?thesis
    by (simp add: dec_int_def parse_integer_value_def parse_integer_digits_dec_nat)
qed

lemma parse_integer_value_dec_nat:
  "parse_integer_value (dec_nat n) = Some (word_of_nat n)"
  using parse_integer_value_dec_int [of "int n"] by (simp add: dec_int_def)

lemma c_str_id: "CHR 0x00 \<notin> set s \<Longrightarrow> c_str s = s"
  by (simp add: c_str_def takeWhile_eq_all_conv) metis

lemma wire_ne [simp]: "wire v \<noteq> []"
  by (cases v) simp_all

lemma sint_of_nat_small: "n < 2 ^ 31 \<Longrightarrow> sint (word_of_nat n :: 64 word) = int n"
proof -
  assume "n < 2 ^ 31"
  then have "int n < 2 ^ 63"
    by (simp add: order_less_trans [of _ "2 ^ 31"])
  then show ?thesis
    by (simp add: signed_of_nat signed_take_bit_int_eq_self)
qed

lemma unat_of_nat_small: "n < 2 ^ 31 \<Longrightarrow> unat (word_of_nat n :: 64 word) = n"
proof -
  assume "n < 2 ^ 31"
  then have "n < 2 ^ 64"
    by (simp add: order_less_trans [of _ "2 ^ 31"])
  then show ?thesis
    by (simp add: unat_of_nat)
qed

lemma string_frame:
  assumes "CHR 0x00 \<notin> set s" "no_crlf s" "length s + 3 < 2 ^ 31"
  shows "resp_parse (CHR ''+'' # c_str s @ [CR, LF] @ rest) = Parsed (RESP_SIMPLE_STRING s) (length s + 3)"
    and "resp_parse (CHR ''-'' # c_str s @ [CR, LF] @ rest) = Parsed (RESP_ERROR s) (length s + 3)"
  using assms
  by (simp_all add: resp_parse_Cons c_str_id parse_line_append_crlf int_ret_small)

lemma integer_frame:
  "resp_parse (CHR '':'' # dec_int (sint i) @ [CR, LF] @ rest)
     = Parsed (RESP_INTEGER i) (length (dec_int (sint i)) + 3)"
    if "length (dec_int (sint i)) + 3 < 2 ^ 31"
  using that
  by (simp add: resp_parse_Cons parse_line_append_crlf no_crlf_no_CR dec_int_no_CR
      parse_integer_value_dec_int int_ret_small)

lemma bulk_frame:
  assumes "length (dec_nat (length s)) + length s + 5 < 2 ^ 31"
  shows "resp_parse (CHR ''$'' # dec_nat (length s) @ [CR, LF] @ s @ [CR, LF] @ rest)
     = Parsed (RESP_BULK_STRING s) (length (dec_nat (length s)) + length s + 5)"
proof -
  from assms have len: "length s < 2 ^ 31"
    by simp
  have ne: "(word_of_nat (length s) :: 64 word) \<noteq> - 1"
    using sint_of_nat_small [OF len] by (metis sint_n1 of_nat_0_le_iff not_one_le_zero neg_0_le_iff_le)
  have nonneg: "\<not> (word_of_nat (length s) :: 64 word) <s 0"
    using sint_of_nat_small [OF len] by (simp add: word_sless_alt)
  show ?thesis
    using assms ne nonneg
    by (simp add: resp_parse_Cons parse_bulk_string_def parse_line_append_crlf no_crlf_no_CR
        dec_nat_no_CR parse_integer_value_dec_nat unat_of_nat_small [OF len] Let_def
        int_ret_small)
qed

lemma null_frame:
  "resp_parse (''$-1'' @ [CR, LF] @ rest) = Parsed RESP_NULL_BULK_STRING 5"
  by (simp add: resp_parse_Cons parse_bulk_string_def parse_line_Cons2
      parse_integer_value_def int_ret_def int_of_size_def)

lemma length_le_concat_wire: "length vs \<le> length (concat (map wire vs))"
proof (induction vs)
  case (Cons v vs)
  have "1 \<le> length (wire v)"
    using wire_ne [of v] by (cases "wire v") simp_all
  with Cons show ?case by simp
qed simp

lemma array_loop_roundtrip:
  assumes "\<And>w rest. w \<in> set ws \<Longrightarrow> resp_parse (wire w @ rest) = Parsed w (length (wire w))"
    and "cn = int i + int (length ws)"
    and "length pre + length (concat (map wire ws)) < 2 ^ 31" and "0 < length pre"
  shows "parse_array_loop (pre @ concat (map wire ws) @ rest) cn i (length pre) els
     = Parsed (RESP_ARRAY (els @ ws)) (length pre + length (concat (map wire ws)))"
  using assms
proof (induction ws arbitrary: pre i els)
  case Nil
  then show ?case
    by (subst parse_array_loop.simps) (simp add: int_ret_small)
next
  case (Cons w ws)
  have lt: "\<not> length (pre @ concat (map wire (w # ws)) @ rest) \<le> length pre"
    using wire_ne [of w] by (cases "wire w") simp_all
  have child: "resp_parse (drop (length pre) (pre @ concat (map wire (w # ws)) @ rest))
      = Parsed w (length (wire w))"
    using Cons.prems(1) [of w "concat (map wire ws) @ rest"] by simp
  have "parse_array_loop ((pre @ wire w) @ concat (map wire ws) @ rest) cn (i + 1)
          (length (pre @ wire w)) (els @ [w])
      = Parsed (RESP_ARRAY ((els @ [w]) @ ws))
          (length (pre @ wire w) + length (concat (map wire ws)))"
    using Cons.prems by (intro Cons.IH) simp_all
  then have rest: "parse_array_loop (pre @ concat (map wire (w # ws)) @ rest) cn (i + 1)
          (length pre + length (wire w)) (els @ [w])
      = Parsed (RESP_ARRAY (els @ w # ws))
          (length pre + length (concat (map wire (w # ws))))"
    by (simp add: add.assoc)
  from Cons.prems(2) have "int i < cn"
    by simp
  with lt child rest show ?case
    by (subst parse_array_loop.simps) simp
qed

lemma resp_roundtrip_aux:
  "wire_ok v \<Longrightarrow> length (wire v) < 2 ^ 31 \<Longrightarrow>
     resp_parse (wire v @ rest) = Parsed v (length (wire v))"
proof (induction v arbitrary: rest)
  case (RESP_SIMPLE_STRING s)
  then show ?case
    using string_frame(1) [of s rest] by (simp add: c_str_id)
next
  case (RESP_ERROR s)
  then show ?case
    using string_frame(2) [of s rest] by (simp add: c_str_id)
next
  case (RESP_INTEGER i)
  then show ?case
    using integer_frame [of i rest] by simp
next
  case (RESP_BULK_STRING s)
  then show ?case
    using bulk_frame [of s rest] by simp
next
  case RESP_NULL_BULK_STRING
  show ?case
    using null_frame [of rest] by simp
next
  case (RESP_ARRAY vs)
  let ?hdr = "dec_int (int (length vs))"
  let ?pre = "CHR ''*'' # ?hdr @ [CR, LF]"
  from RESP_ARRAY.prems(2)
  have total: "length ?pre + length (concat (map wire vs)) < 2 ^ 31"
    by simp
  with length_le_concat_wire [of vs] have n: "length vs < 2 ^ 31"
    by simp
  have elems: "resp_parse (wire w @ rest') = Parsed w (length (wire w))"
    if "w \<in> set vs" for w rest'
  proof -
    from that RESP_ARRAY.prems(1) have ok: "wire_ok w"
      by (simp add: list_all_iff)
    from that have "length (wire w) \<le> length (concat (map wire vs))"
      by (induction vs) auto
    with total have "length (wire w) < 2 ^ 31"
      by simp
    from RESP_ARRAY.IH [OF that ok this] show ?thesis .
  qed
  have line: "parse_line (?hdr @ CR # LF # concat (map wire vs) @ rest) = Some (length ?hdr)"
    by (simp add: parse_line_append_crlf no_crlf_no_CR dec_int_no_CR)
  have cnt: "parse_integer_value ?hdr = Some (word_of_nat (length vs))"
    by (simp add: parse_integer_value_dec_int)
  have nonneg: "\<not> (word_of_nat (length vs) :: 64 word) <s 0"
    using sint_of_nat_small [OF n] by (simp add: word_sless_alt)
  show ?case
  proof (cases "vs = []")
    case True
    with total line cnt show ?thesis
      by (simp add: resp_parse_Cons parse_array_Cons int_ret_small)
  next
    case False
    then have "sint (word_of_nat (length vs) :: 64 word) \<noteq> 0"
      using sint_of_nat_small [OF n] by simp
    then have nz: "(word_of_nat (length vs) :: 64 word) \<noteq> 0"
      by (metis sint_0)
    have "parse_array_loop (?pre @ concat (map wire vs) @ rest) (int (length vs)) 0
            (length ?pre) []
        = Parsed (RESP_ARRAY ([] @ vs)) (length ?pre + length (concat (map wire vs)))"
      using elems total by (intro array_loop_roundtrip) simp_all
    with line cnt nonneg nz sint_of_nat_small [OF n] show ?thesis
      by (simp add: resp_parse_Cons parse_array_Cons)
  qed
qed

text \<open>
  Claim C1 (round trip), as amended. For every wire value whose simple strings and errors
  contain no NUL byte and no CR LF pair (bulk strings are arbitrary, arrays nest), and
  whose serialized form is shorter than \<open>2^31\<close> bytes (the parser returns an \<open>int\<close>):
  parsing the bytes that the serializer appended to the client's write buffer yields
  the value again and consumes exactly the bytes appended.
\<close>

theorem resp_roundtrip:
  assumes "wire_ok v"
    and "length (write_buf (resp_write_value c v)) - length (write_buf c) < 2 ^ 31"
  shows "resp_parse (drop (length (write_buf c)) (write_buf (resp_write_value c v)))
     = Parsed v (length (write_buf (resp_write_value c v)) - length (write_buf c))"
  using assms resp_roundtrip_aux [of v "[]"]
  by (simp add: write_buf_resp_write_value)

lemmas wire_eval = client_init_def dec_int_def dec_nat.simps c_str_def

theorem resp_roundtrip_error_crlf_counterexample:
  "resp_parse (write_buf (resp_write_value client_init (RESP_ERROR [CHR ''a'', CR, LF, CHR ''b''])))
     = Parsed (RESP_ERROR ''a'') 4
   \<and> length (write_buf (resp_write_value client_init (RESP_ERROR [CHR ''a'', CR, LF, CHR ''b'']))) = 7"
proof -
  have "write_buf (resp_write_value client_init (RESP_ERROR [CHR ''a'', CR, LF, CHR ''b'']))
      = [CHR ''-'', CHR ''a'', CR, LF, CHR ''b'', CR, LF]"
    by (simp add: write_buf_resp_write_value wire_eval del: resp_write_value.simps)
  then show ?thesis
    by (simp add: resp_eval)
qed

theorem resp_roundtrip_witness:
  "wire_ok (RESP_ARRAY [RESP_SIMPLE_STRING ''OK'', RESP_ERROR ''ERR x'', RESP_INTEGER (- 7),
      RESP_BULK_STRING [CHR ''a'', CR, LF, CHR ''b''], RESP_NULL_BULK_STRING])
   \<and> resp_parse (write_buf (resp_write_value client_init
        (RESP_ARRAY [RESP_SIMPLE_STRING ''OK'', RESP_ERROR ''ERR x'', RESP_INTEGER (- 7),
           RESP_BULK_STRING [CHR ''a'', CR, LF, CHR ''b''], RESP_NULL_BULK_STRING])))
     = Parsed (RESP_ARRAY [RESP_SIMPLE_STRING ''OK'', RESP_ERROR ''ERR x'', RESP_INTEGER (- 7),
           RESP_BULK_STRING [CHR ''a'', CR, LF, CHR ''b''], RESP_NULL_BULK_STRING]) 37"
proof -
  let ?v = "RESP_ARRAY [RESP_SIMPLE_STRING ''OK'', RESP_ERROR ''ERR x'', RESP_INTEGER (- 7),
      RESP_BULK_STRING [CHR ''a'', CR, LF, CHR ''b''], RESP_NULL_BULK_STRING]"
  have ok: "wire_ok ?v"
    by simp
  have len: "length (write_buf (resp_write_value client_init ?v))
      - length (write_buf client_init) = 37"
    by (simp add: write_buf_resp_write_value wire_eval del: resp_write_value.simps)
  then have "length (write_buf (resp_write_value client_init ?v))
      - length (write_buf client_init) < 2 ^ 31"
    by simp
  from resp_roundtrip [OF ok this] len ok show ?thesis
    by (simp add: client_init_def del: resp_write_value.simps wire_ok.simps)
qed

section \<open>The keyspace table\<close>

subsection \<open>Probe sequences\<close>

lemma rstr_eq_iff [simp]: "rstr_eq a b \<longleftrightarrow> a = b"
  by (auto simp: rstr_eq_def)

lemma and_mask_mod: "x AND (2 ^ m - 1) = x mod 2 ^ m" for x :: nat
  by (metis mask_eq_exp_minus_1 take_bit_eq_mask take_bit_eq_mod)

lemma slot_of_mod:
  "slot_of (2 ^ m) k i = (unat (fnv1a_hash k) + i) mod 2 ^ m"
  by (simp only: slot_of_def and_mask_mod mod_add_left_eq)

lemma slot_of_lt: "slot_of (2 ^ m) k i < 2 ^ m"
  by (simp add: slot_of_mod)

lemma add_mod_inj:
  fixes h :: nat
  assumes "(h + i) mod c = (h + j) mod c" "i < c" "j < c"
  shows "i = j"
proof -
  have aux: "a = b" if "a \<le> b" "(h + a) mod c = (h + b) mod c" "b < c" for a b
  proof -
    from that(1) have "h + a \<le> h + b" by simp
    with that(2) have "c dvd (h + b) - (h + a)"
      by (metis mod_eq_dvd_iff_nat)
    then have "c dvd b - a" by simp
    moreover from that have "b - a < c" by simp
    ultimately have "b - a = 0"
      by (metis dvd_imp_le not_less zero_less_iff_neq_zero)
    with that(1) show ?thesis by simp
  qed
  show ?thesis
  proof (cases "i \<le> j")
    case True
    from aux [OF True assms(1) assms(3)] show ?thesis .
  next
    case False
    then have "j \<le> i" by simp
    from aux [OF this assms(1) [symmetric] assms(2)] show ?thesis by simp
  qed
qed

lemma add_mod_surj:
  fixes h :: nat
  assumes "s < c"
  shows "\<exists>d<c. (h + d) mod c = s"
proof -
  let ?r = "h mod c"
  let ?d = "(s + c - ?r) mod c"
  from assms have c: "0 < c" by simp
  then have r: "?r < c" by simp
  have "(h + ?d) mod c = (?r + ?d) mod c"
    by (simp add: mod_add_left_eq)
  also have "\<dots> = (?r + (s + c - ?r)) mod c"
    by (simp add: mod_add_right_eq)
  also from r have "?r + (s + c - ?r) = s + c"
    by simp
  also from assms have "(s + c) mod c = s"
    by simp
  finally have "(h + ?d) mod c = s" .
  moreover from c have "?d < c" by simp
  ultimately show ?thesis by blast
qed

lemma slot_of_inj:
  assumes "slot_of (2 ^ m) k i = slot_of (2 ^ m) k j" "i < 2 ^ m" "j < 2 ^ m"
  shows "i = j"
  using assms add_mod_inj [of "unat (fnv1a_hash k)" i "2 ^ m" j]
  by (simp add: slot_of_mod)

lemma slot_of_surj:
  assumes "s < 2 ^ m"
  shows "\<exists>d<2 ^ m. slot_of (2 ^ m) k d = s"
  using add_mod_surj [OF assms, of "unat (fnv1a_hash k)"]
  by (simp add: slot_of_mod)

lemma scan_ok_Suc:
  "scan_ok ht k i \<Longrightarrow> i < capacity ht \<Longrightarrow> passed (entries ht) (capacity ht) k i \<Longrightarrow>
     scan_ok ht k (Suc i)"
  by (auto simp: scan_ok_def less_Suc_eq)

lemma cand_of_ft:
  "ft_ok ht k i ft \<Longrightarrow>
     cand ht k i (case ft of Some t \<Rightarrow> t | None \<Rightarrow> slot_of (capacity ht) k i)"
  by (auto simp: ft_ok_def cand_def split: option.splits)

lemma probe_loop_unfold:
  assumes "idx = (unat (fnv1a_hash k) AND (capacity ht - 1))"
  shows "probe_loop ht k now idx ft i =
     (if i < capacity ht then
        (if state (entries ht ! slot_of (capacity ht) k i) = ENTRY_EMPTY then
           (ht, (case ft of Some t \<Rightarrow> t | None \<Rightarrow> slot_of (capacity ht) k i), False)
         else if state (entries ht ! slot_of (capacity ht) k i) = ENTRY_TOMBSTONE then
           probe_loop ht k now idx
             (case ft of None \<Rightarrow> Some (slot_of (capacity ht) k i) | Some t \<Rightarrow> Some t) (i + 1)
         else if key (entries ht ! slot_of (capacity ht) k i) = k then
           (if is_expired now (entries ht ! slot_of (capacity ht) k i) then
              (tombstoned ht (slot_of (capacity ht) k i),
               (case ft of Some t \<Rightarrow> t | None \<Rightarrow> slot_of (capacity ht) k i), False)
            else (ht, slot_of (capacity ht) k i, True))
         else probe_loop ht k now idx ft (i + 1))
      else (ht, (case ft of Some t \<Rightarrow> t | None \<Rightarrow> 0), False))"
  by (subst probe_loop.simps)
    (simp only: assms slot_of_def Let_def tombstoned_def rstr_eq_iff)

lemma probe_loop_spec:
  assumes "scan_ok ht k i" and "ft_ok ht k i ft"
    and "idx = (unat (fnv1a_hash k) AND (capacity ht - 1))"
  shows "probe_result ht k now (probe_loop ht k now idx ft i)"
  using assms
proof (induction ht k now idx ft i rule: probe_loop.induct)
  case (1 ht k now idx ft i)
  let ?cap = "capacity ht"
  let ?slot = "slot_of ?cap k i"
  let ?e = "entries ht ! ?slot"
  note unfold = probe_loop_unfold [OF "1.prems"(3), of now ft i]
  have slot: "(idx + i) AND (?cap - 1) = ?slot"
    using "1.prems"(3) by (simp add: slot_of_def)
  show ?case
  proof (cases "i < ?cap")
    case False
    with "1.prems"(1) have "i = ?cap"
      by (simp add: scan_ok_def)
    with "1.prems"(1) False show ?thesis
      by (subst unfold) (auto simp: probe_result_def)
  next
    case lt: True
    consider (empty) "state ?e = ENTRY_EMPTY"
      | (tomb) "state ?e = ENTRY_TOMBSTONE"
      | (match) "state ?e = ENTRY_OCCUPIED" "key ?e = k"
      | (other) "state ?e = ENTRY_OCCUPIED" "key ?e \<noteq> k"
      by (cases "state ?e") auto
    then show ?thesis
    proof cases
      case empty
      have "probe_loop ht k now idx ft i
          = (ht, (case ft of Some t \<Rightarrow> t | None \<Rightarrow> ?slot), False)"
        using lt empty by (subst unfold) simp
      with lt empty "1.prems"(1) cand_of_ft [OF "1.prems"(2)] show ?thesis
        unfolding probe_result_def by blast
    next
      case tomb
      let ?ft' = "case ft of None \<Rightarrow> Some ?slot | Some t \<Rightarrow> Some t"
      have eq: "probe_loop ht k now idx ft i = probe_loop ht k now idx ?ft' (i + 1)"
        using lt tomb by (subst unfold) simp
      have scan: "scan_ok ht k (i + 1)"
        using scan_ok_Suc [OF "1.prems"(1) lt] tomb by (simp add: passed_def)
      have ft': "ft_ok ht k (i + 1) ?ft'"
        using "1.prems"(2) tomb by (auto simp: ft_ok_def less_Suc_eq split: option.splits)
      have "probe_result ht k now (probe_loop ht k now idx ?ft' (i + 1))"
        using lt tomb scan ft' "1.prems"(3)
        by (intro "1.IH"(1) [where x = ?slot and xa = ?e]) (simp_all add: slot_of_def)
      with eq show ?thesis by simp
    next
      case match
      show ?thesis
      proof (cases "is_expired now ?e")
        case True
        have "probe_loop ht k now idx ft i
            = (tombstoned ht ?slot, (case ft of Some t \<Rightarrow> t | None \<Rightarrow> ?slot), False)"
          using lt match True by (subst unfold) simp
        with lt match True "1.prems"(1) cand_of_ft [OF "1.prems"(2)] show ?thesis
          unfolding probe_result_def hit_def by blast
      next
        case False
        have "probe_loop ht k now idx ft i = (ht, ?slot, True)"
          using lt match False by (subst unfold) simp
        with lt match False "1.prems"(1) show ?thesis
          unfolding probe_result_def hit_def by blast
      qed
    next
      case other
      have eq: "probe_loop ht k now idx ft i = probe_loop ht k now idx ft (i + 1)"
        using lt other by (subst unfold) simp
      have scan: "scan_ok ht k (i + 1)"
        using scan_ok_Suc [OF "1.prems"(1) lt] other by (simp add: passed_def)
      have ft': "ft_ok ht k (i + 1) ft"
        using "1.prems"(2) by (auto simp: ft_ok_def less_Suc_eq split: option.splits)
      have "probe_result ht k now (probe_loop ht k now idx ft (i + 1))"
        using lt other scan ft' "1.prems"(3)
        by (intro "1.IH"(2) [where x = ?slot and xa = ?e]) (simp_all add: slot_of_def)
      with eq show ?thesis by simp
    qed
  qed
qed

lemma probe_spec: "probe_result ht k now (probe ht k now)"
  unfolding probe_def
  by (rule probe_loop_spec) (simp_all add: scan_ok_def ft_ok_def)

lemma filter_count_update:
  "s < length es \<Longrightarrow>
     length (filter P (es[s := e])) + (if P (es ! s) then 1 else 0)
       = length (filter P es) + (if P e then 1 else 0)"
proof (induction es arbitrary: s)
  case Nil
  then show ?case by simp
next
  case (Cons a es)
  show ?case
  proof (cases s)
    case 0
    then show ?thesis by simp
  next
    case (Suc s')
    with Cons.prems have "s' < length es" by simp
    from Cons.IH [OF this]
    have "length (filter P (es[s' := e])) + (if P (es ! s') then 1 else 0)
       = length (filter P es) + (if P e then 1 else 0)" .
    then have "length (filter P (a # es[s' := e])) + (if P (es ! s') then 1 else 0)
       = length (filter P (a # es)) + (if P e then 1 else 0)"
      by (cases "P a") simp_all
    with Suc show ?thesis
      by simp
  qed
qed

lemma occupied_count_update:
  "s < length es \<Longrightarrow>
     occupied_count (es[s := e]) + (if state (es ! s) = ENTRY_OCCUPIED then 1 else 0)
       = occupied_count es + (if state e = ENTRY_OCCUPIED then 1 else 0)"
  unfolding occupied_count_def
  by (rule filter_count_update [where P = "\<lambda>e. state e = ENTRY_OCCUPIED"])

lemma tombstone_count_update:
  "s < length es \<Longrightarrow>
     tombstone_count (es[s := e]) + (if state (es ! s) = ENTRY_TOMBSTONE then 1 else 0)
       = tombstone_count es + (if state e = ENTRY_TOMBSTONE then 1 else 0)"
  unfolding tombstone_count_def
  by (rule filter_count_update [where P = "\<lambda>e. state e = ENTRY_TOMBSTONE"])

lemma count_partition:
  "occupied_count es + tombstone_count es
     + length (filter (\<lambda>e. state e = ENTRY_EMPTY) es) = length es"
proof (induction es)
  case Nil
  show ?case
    by (simp add: occupied_count_def tombstone_count_def)
next
  case (Cons e es)
  have "occupied_count (e # es) + tombstone_count (e # es)
      + length (filter (\<lambda>e. state e = ENTRY_EMPTY) (e # es))
    = Suc (occupied_count es + tombstone_count es
      + length (filter (\<lambda>e. state e = ENTRY_EMPTY) es))"
    by (cases "state e") (simp_all add: occupied_count_def tombstone_count_def)
  with Cons.IH show ?case
    by simp
qed

lemma exists_empty:
  assumes "occupied_count es + tombstone_count es < length es"
  shows "\<exists>s<length es. state (es ! s) = ENTRY_EMPTY"
proof -
  from assms count_partition [of es]
  have "filter (\<lambda>e. state e = ENTRY_EMPTY) es \<noteq> []"
    by auto
  then obtain e where "e \<in> set (filter (\<lambda>e. state e = ENTRY_EMPTY) es)"
    by (cases "filter (\<lambda>e. state e = ENTRY_EMPTY) es") auto
  then have "e \<in> set es" "state e = ENTRY_EMPTY"
    by simp_all
  then show ?thesis
    by (auto simp: in_set_conv_nth)
qed

lemma ht_inv_empty_slot:
  assumes "ht_inv ht"
  shows "\<exists>s<capacity ht. state (entries ht ! s) = ENTRY_EMPTY"
proof -
  from assms have len: "length (entries ht) = capacity ht"
    and "occupied_count (entries ht) + tombstone_count (entries ht) < length (entries ht)"
    by (simp_all add: ht_inv_def counters_ok_def)
  from exists_empty [OF this(2)] len show ?thesis
    by simp
qed

lemma not_passed_empty:
  "state (es ! slot_of cap k j) = ENTRY_EMPTY \<Longrightarrow> \<not> passed es cap k j"
  by (simp add: passed_def)

lemma ht_inv_not_full:
  assumes "ht_inv ht"
  shows "\<not> scan_ok ht k (capacity ht)"
proof
  assume scan: "scan_ok ht k (capacity ht)"
  from assms obtain m where cap: "capacity ht = 2 ^ m"
    by (auto simp: ht_inv_def)
  from ht_inv_empty_slot [OF assms] obtain s where
    s: "s < capacity ht" "state (entries ht ! s) = ENTRY_EMPTY"
    by blast
  from slot_of_surj [of s m k] s cap obtain d where
    d: "d < capacity ht" "slot_of (capacity ht) k d = s"
    by auto
  with scan have "passed (entries ht) (capacity ht) k d"
    by (simp add: scan_ok_def)
  with d s show False
    by (simp add: passed_def)
qed

lemma chain_unique:
  assumes cap: "cap = 2 ^ m"
    and c1: "chain_to es cap k s1" and c2: "chain_to es cap k s2"
    and o1: "state (es ! s1) = ENTRY_OCCUPIED" "key (es ! s1) = k"
    and o2: "state (es ! s2) = ENTRY_OCCUPIED" "key (es ! s2) = k"
  shows "s1 = s2"
proof -
  from c1 obtain d1 where d1: "d1 < cap" "slot_of cap k d1 = s1" "\<forall>j<d1. passed es cap k j"
    by (auto simp: chain_to_def)
  from c2 obtain d2 where d2: "d2 < cap" "slot_of cap k d2 = s2" "\<forall>j<d2. passed es cap k j"
    by (auto simp: chain_to_def)
  have "\<not> d1 < d2"
    using d2(3) d1(2) o1 by (auto simp: passed_def)
  moreover have "\<not> d2 < d1"
    using d1(3) d2(2) o2 by (auto simp: passed_def)
  ultimately have "d1 = d2"
    by simp
  with d1 d2 show ?thesis
    by simp
qed

lemma key_unique:
  assumes "ht_inv ht" "s1 < capacity ht" "s2 < capacity ht"
    and "state (entries ht ! s1) = ENTRY_OCCUPIED" "state (entries ht ! s2) = ENTRY_OCCUPIED"
    and "key (entries ht ! s1) = key (entries ht ! s2)"
  shows "s1 = s2"
proof -
  from assms(1) obtain m where cap: "capacity ht = 2 ^ m"
    by (auto simp: ht_inv_def)
  from assms(1) have ok: "probe_chain_ok ht"
    by (simp add: ht_inv_def)
  from ok assms(2,4) have c1: "chain_to (entries ht) (capacity ht) (key (entries ht ! s1)) s1"
    by (simp add: probe_chain_ok_def)
  from ok assms(3,5) have "chain_to (entries ht) (capacity ht) (key (entries ht ! s2)) s2"
    by (simp add: probe_chain_ok_def)
  then have c2: "chain_to (entries ht) (capacity ht) (key (entries ht ! s1)) s2"
    by (simp only: assms(6))
  show ?thesis
    by (rule chain_unique [OF cap c1 c2 assms(4) refl assms(5) assms(6) [symmetric]])
qed

text \<open>Updates of one slot.\<close>

lemma passed_update_tombstone:
  assumes "passed es cap k j" "state e' = ENTRY_TOMBSTONE" "slot_of cap k j < length es"
  shows "passed (es[s := e']) cap k j"
proof (cases "slot_of cap k j = s")
  case True
  with assms(2,3) have "state (es[s := e'] ! slot_of cap k j) = ENTRY_TOMBSTONE"
    by simp
  then show ?thesis
    by (simp add: passed_def)
next
  case False
  then have "es[s := e'] ! slot_of cap k j = es ! slot_of cap k j"
    by simp
  with assms(1) show ?thesis
    by (simp add: passed_def)
qed

lemma chain_to_update_tombstone:
  assumes "chain_to es cap k t" "state e' = ENTRY_TOMBSTONE" "cap = 2 ^ m" "length es = cap"
  shows "chain_to (es[s := e']) cap k t"
proof -
  from assms(1) obtain d where d: "d < cap" "slot_of cap k d = t" "\<forall>j<d. passed es cap k j"
    by (auto simp: chain_to_def)
  have "passed (es[s := e']) cap k j" if "j < d" for j
    using d(3) that assms(2-4) slot_of_lt [of m k j]
    by (intro passed_update_tombstone) auto
  with d show ?thesis
    by (auto simp: chain_to_def)
qed

lemma chain_ok_update_tombstone:
  assumes "probe_chain_ok ht" "capacity ht = 2 ^ m" "length (entries ht) = capacity ht"
    and "state e' = ENTRY_TOMBSTONE"
  shows "probe_chain_ok (ht\<lparr>entries := (entries ht)[s := e'], count := c\<rparr>)"
  unfolding probe_chain_ok_def
proof (intro allI impI)
  fix t
  assume t: "t < capacity (ht\<lparr>entries := (entries ht)[s := e'], count := c\<rparr>)"
    and occ: "state (entries (ht\<lparr>entries := (entries ht)[s := e'], count := c\<rparr>) ! t)
        = ENTRY_OCCUPIED"
  from occ assms(4) t assms(3) have ts: "t \<noteq> s"
    by auto
  with occ t have "state (entries ht ! t) = ENTRY_OCCUPIED"
    by simp
  with assms(1) t have "chain_to (entries ht) (capacity ht) (key (entries ht ! t)) t"
    by (simp add: probe_chain_ok_def)
  from chain_to_update_tombstone [OF this assms(4) assms(2) assms(3), of s] ts
  show "chain_to (entries (ht\<lparr>entries := (entries ht)[s := e'], count := c\<rparr>))
      (capacity (ht\<lparr>entries := (entries ht)[s := e'], count := c\<rparr>))
      (key (entries (ht\<lparr>entries := (entries ht)[s := e'], count := c\<rparr>) ! t)) t"
    by simp
qed

lemma chain_ok_update_payload:
  assumes "probe_chain_ok ht" "s < length (entries ht)"
    and "state e' = state (entries ht ! s)" "key e' = key (entries ht ! s)"
  shows "probe_chain_ok (ht\<lparr>entries := (entries ht)[s := e']\<rparr>)"
proof -
  have same: "state ((entries ht)[s := e'] ! t) = state (entries ht ! t)
      \<and> key ((entries ht)[s := e'] ! t) = key (entries ht ! t)" for t
    using assms(2-4) by (cases "t = s") simp_all
  then have "passed ((entries ht)[s := e']) cap k j = passed (entries ht) cap k j" for cap k j
    by (simp add: passed_def)
  then have "chain_to ((entries ht)[s := e']) cap k t = chain_to (entries ht) cap k t" for cap k t
    by (simp add: chain_to_def)
  with assms(1) same show ?thesis
    by (simp add: probe_chain_ok_def)
qed

lemma chain_ok_update_insert:
  assumes ok: "probe_chain_ok ht" and cap: "capacity ht = 2 ^ m"
    and len: "length (entries ht) = capacity ht"
    and s: "s < capacity ht" "state (entries ht ! s) \<noteq> ENTRY_OCCUPIED"
    and chain: "chain_to (entries ht) (capacity ht) k s"
    and fresh: "\<forall>t<capacity ht. state (entries ht ! t) = ENTRY_OCCUPIED \<longrightarrow> key (entries ht ! t) \<noteq> k"
    and e': "state e' = ENTRY_OCCUPIED" "key e' = k"
  shows "probe_chain_ok (ht\<lparr>entries := (entries ht)[s := e'], count := c, used := u\<rparr>)"
  unfolding probe_chain_ok_def
proof (intro allI impI)
  let ?es = "entries ht" and ?cap = "capacity ht"
  let ?ht' = "ht\<lparr>entries := (entries ht)[s := e'], count := c, used := u\<rparr>"
  fix t
  assume t: "t < capacity ?ht'" and occ: "state (entries ?ht' ! t) = ENTRY_OCCUPIED"
  have goal: "chain_to (?es[s := e']) ?cap (key (?es[s := e'] ! t)) t"
  proof (cases "t = s")
    case True
    from chain obtain d where
      d: "d < ?cap" "slot_of ?cap k d = s" "\<forall>j<d. passed ?es ?cap k j"
      by (auto simp: chain_to_def)
    have "passed (?es[s := e']) ?cap k j" if "j < d" for j
    proof -
      from that d(1) have "j < ?cap" by simp
      with slot_of_inj [of m k j d] d that cap have "slot_of ?cap k j \<noteq> s"
        by auto
      with d(3) that show ?thesis
        by (simp add: passed_def)
    qed
    with d True s len e' show ?thesis
      by (auto simp: chain_to_def)
  next
    case False
    with occ t have occ_old: "state (?es ! t) = ENTRY_OCCUPIED"
      by simp
    with fresh t have neq: "key (?es ! t) \<noteq> k"
      by simp
    from ok occ_old t obtain d where
      d: "d < ?cap" "slot_of ?cap (key (?es ! t)) d = t"
        "\<forall>j<d. passed ?es ?cap (key (?es ! t)) j"
      by (auto simp: probe_chain_ok_def chain_to_def)
    have "passed (?es[s := e']) ?cap (key (?es ! t)) j" if "j < d" for j
    proof (cases "slot_of ?cap (key (?es ! t)) j = s")
      case True
      with e' neq s len show ?thesis
        by (simp add: passed_def)
    next
      case False
      with d(3) that show ?thesis
        by (simp add: passed_def)
    qed
    with d False show ?thesis
      by (auto simp: chain_to_def)
  qed
  then show "chain_to (entries ?ht') (capacity ?ht') (key (entries ?ht' ! t)) t"
    by simp
qed

lemma state_entry_free [simp]: "state (entry_free e) = ENTRY_TOMBSTONE"
  by (simp add: entry_free_def)

lemma tombstoned_simps [simp]:
  "capacity (tombstoned ht s) = capacity ht"
  "used (tombstoned ht s) = used ht"
  "count (tombstoned ht s) = count ht - 1"
  "entries (tombstoned ht s) = (entries ht)[s := entry_free (entries ht ! s)]"
  by (simp_all add: tombstoned_def)

lemma ht_inv_capD:
  assumes "ht_inv ht"
  obtains m where "capacity ht = 2 ^ m" "2 \<le> m" "length (entries ht) = capacity ht"
  using assms by (auto simp: ht_inv_def)

lemma tombstoned_inv:
  assumes inv: "ht_inv ht" and s: "s < capacity ht"
    and occ: "state (entries ht ! s) = ENTRY_OCCUPIED"
  shows "ht_inv (tombstoned ht s)"
proof -
  from inv obtain m where cap: "capacity ht = 2 ^ m" "2 \<le> m"
    and len: "length (entries ht) = capacity ht"
    by (rule ht_inv_capD)
  from inv have cnt: "count ht = occupied_count (entries ht)"
    "used ht = occupied_count (entries ht) + tombstone_count (entries ht)"
    "used ht < capacity ht" and ok: "probe_chain_ok ht"
    by (simp_all add: ht_inv_def counters_ok_def)
  let ?es' = "(entries ht)[s := entry_free (entries ht ! s)]"
  from s len have s': "s < length (entries ht)"
    by simp
  from occupied_count_update [OF s', of "entry_free (entries ht ! s)"] occ
  have o: "occupied_count ?es' + 1 = occupied_count (entries ht)"
    by simp
  from tombstone_count_update [OF s', of "entry_free (entries ht ! s)"] occ
  have t: "tombstone_count ?es' = tombstone_count (entries ht) + 1"
    by simp
  from o have o': "occupied_count ?es' = occupied_count (entries ht) - 1"
    by arith
  from o have "1 \<le> occupied_count (entries ht)"
    by arith
  with o' t cnt have "counters_ok (tombstoned ht s)"
    by (simp add: counters_ok_def)
  moreover have "probe_chain_ok (tombstoned ht s)"
    unfolding tombstoned_def
    by (rule chain_ok_update_tombstone [OF ok cap(1) len]) simp
  moreover have "\<exists>m\<ge>2. capacity ht = 2 ^ m"
    using cap by blast
  ultimately show ?thesis
    using len cnt(3) by (simp add: ht_inv_def)
qed

lemma scan_no_key:
  assumes inv: "ht_inv ht" and scan: "scan_ok ht k d" and d: "d < capacity ht"
    and stop: "state (entries ht ! slot_of (capacity ht) k d) = ENTRY_EMPTY"
    and t: "t < capacity ht" "state (entries ht ! t) = ENTRY_OCCUPIED"
  shows "key (entries ht ! t) \<noteq> k"
proof
  assume k: "key (entries ht ! t) = k"
  from inv t have "chain_to (entries ht) (capacity ht) (key (entries ht ! t)) t"
    by (simp add: ht_inv_def probe_chain_ok_def)
  with k obtain d' where d': "d' < capacity ht" "slot_of (capacity ht) k d' = t"
    "\<forall>j<d'. passed (entries ht) (capacity ht) k j"
    by (auto simp: chain_to_def)
  consider "d' < d" | "d' = d" | "d < d'"
    by linarith
  then show False
  proof cases
    case 1
    with scan have "passed (entries ht) (capacity ht) k d'"
      by (simp add: scan_ok_def)
    with d'(2) t(2) k show False
      by (simp add: passed_def)
  next
    case 2
    with d'(2) stop t(2) show False
      by simp
  next
    case 3
    with d'(3) have "passed (entries ht) (capacity ht) k d"
      by simp
    with stop show False
      by (simp add: passed_def)
  qed
qed

lemma cand_insert_ready:
  assumes inv: "ht_inv ht" and scan: "scan_ok ht k d" and d: "d < capacity ht"
    and cand: "cand ht k d slot"
    and stop: "state (entries ht ! slot_of (capacity ht) k d) \<noteq> ENTRY_OCCUPIED"
    and fresh: "\<forall>t<capacity ht. state (entries ht ! t) = ENTRY_OCCUPIED \<longrightarrow> key (entries ht ! t) \<noteq> k"
  shows "insert_ready ht k slot"
proof -
  from inv obtain m where cap: "capacity ht = 2 ^ m"
    by (rule ht_inv_capD)
  from cand consider (here) "slot = slot_of (capacity ht) k d"
    | (tomb) t where "t < d" "slot = slot_of (capacity ht) k t"
        "state (entries ht ! slot) = ENTRY_TOMBSTONE"
    by (auto simp: cand_def)
  then show ?thesis
  proof cases
    case here
    from scan d here have "chain_to (entries ht) (capacity ht) k slot"
      by (auto simp: chain_to_def scan_ok_def)
    with here stop fresh slot_of_lt [of m k d] cap show ?thesis
      by (simp add: insert_ready_def)
  next
    case tomb
    from scan d tomb(1,2) have "t < capacity ht \<and> slot_of (capacity ht) k t = slot
        \<and> (\<forall>j<t. passed (entries ht) (capacity ht) k j)"
      by (simp add: scan_ok_def)
    then have "chain_to (entries ht) (capacity ht) k slot"
      unfolding chain_to_def by blast
    with tomb fresh slot_of_lt [of m k t] cap show ?thesis
      by (simp add: insert_ready_def)
  qed
qed

lemma probe_cases:
  assumes inv: "ht_inv ht"
  obtains
    (found) slot where "probe ht k now = (ht, slot, True)" "slot < capacity ht"
      "state (entries ht ! slot) = ENTRY_OCCUPIED" "key (entries ht ! slot) = k"
      "\<not> is_expired now (entries ht ! slot)"
  | (absent) slot where "probe ht k now = (ht, slot, False)" "insert_ready ht k slot"
  | (expired) s slot where "probe ht k now = (tombstoned ht s, slot, False)"
      "s < capacity ht" "state (entries ht ! s) = ENTRY_OCCUPIED" "key (entries ht ! s) = k"
      "is_expired now (entries ht ! s)" "insert_ready (tombstoned ht s) k slot"
proof -
  from inv obtain m where cap: "capacity ht = 2 ^ m"
    and len: "length (entries ht) = capacity ht"
    by (rule ht_inv_capD)
  let ?cap = "capacity ht"
  from probe_spec [of ht k now] ht_inv_not_full [OF inv, of k]
  consider
    (f) d where "d < ?cap" "scan_ok ht k d" "hit ht k d"
      "\<not> is_expired now (entries ht ! slot_of ?cap k d)"
      "probe ht k now = (ht, slot_of ?cap k d, True)"
  | (e) d slot where "d < ?cap" "scan_ok ht k d"
      "state (entries ht ! slot_of ?cap k d) = ENTRY_EMPTY" "cand ht k d slot"
      "probe ht k now = (ht, slot, False)"
  | (x) d slot where "d < ?cap" "scan_ok ht k d" "hit ht k d"
      "is_expired now (entries ht ! slot_of ?cap k d)" "cand ht k d slot"
      "probe ht k now = (tombstoned ht (slot_of ?cap k d), slot, False)"
    unfolding probe_result_def by blast
  then show ?thesis
  proof cases
    case f
    with slot_of_lt [of m k d] cap show ?thesis
      by (intro found [of "slot_of ?cap k d"]) (simp_all add: hit_def)
  next
    case e
    have fresh: "\<forall>t<?cap. state (entries ht ! t) = ENTRY_OCCUPIED \<longrightarrow> key (entries ht ! t) \<noteq> k"
      using scan_no_key [OF inv e(2) e(1) e(3)] by blast
    from e(3) have "state (entries ht ! slot_of ?cap k d) \<noteq> ENTRY_OCCUPIED"
      by simp
    from cand_insert_ready [OF inv e(2) e(1) e(4) this fresh] e(5) show ?thesis
      by (rule absent [rotated])
  next
    case x
    let ?s = "slot_of ?cap k d"
    let ?ht' = "tombstoned ht ?s"
    from slot_of_lt [of m k d] cap have s: "?s < ?cap"
      by simp
    from x(3) have occ: "state (entries ht ! ?s) = ENTRY_OCCUPIED" and ks: "key (entries ht ! ?s) = k"
      by (simp_all add: hit_def)
    have inv': "ht_inv ?ht'"
      by (rule tombstoned_inv [OF inv s occ])
    have scan': "scan_ok ?ht' k d"
      unfolding scan_ok_def
    proof (intro conjI allI impI)
      from x(1) show "d \<le> capacity ?ht'" by simp
    next
      fix j assume "j < d"
      with x(2) have "passed (entries ht) ?cap k j"
        by (simp add: scan_ok_def)
      moreover from slot_of_lt [of m k j] cap len have "slot_of ?cap k j < length (entries ht)"
        by simp
      ultimately show "passed (entries ?ht') (capacity ?ht') k j"
        by (simp add: passed_update_tombstone)
    qed
    have cand': "cand ?ht' k d slot"
    proof -
      from x(5) consider "slot = ?s"
        | t where "t < d" "slot = slot_of ?cap k t" "state (entries ht ! slot) = ENTRY_TOMBSTONE"
        by (auto simp: cand_def)
      then show ?thesis
      proof cases
        case 1
        then show ?thesis by (simp add: cand_def)
      next
        case 2
        from 2(1) x(1) have "t < ?cap" by simp
        with slot_of_inj [of m k t d] 2(1) x(1) cap have "slot_of ?cap k t \<noteq> ?s"
          by auto
        with 2 have "state (entries ?ht' ! slot) = ENTRY_TOMBSTONE"
          by simp
        with 2 show ?thesis
          by (auto simp: cand_def)
      qed
    qed
    have stop': "state (entries ?ht' ! slot_of (capacity ?ht') k d) \<noteq> ENTRY_OCCUPIED"
      using s len by simp
    have fresh': "\<forall>t<capacity ?ht'. state (entries ?ht' ! t) = ENTRY_OCCUPIED
        \<longrightarrow> key (entries ?ht' ! t) \<noteq> k"
    proof (intro allI impI)
      fix t
      assume t: "t < capacity ?ht'" and o: "state (entries ?ht' ! t) = ENTRY_OCCUPIED"
      from o s len have ts: "t \<noteq> ?s"
        by auto
      with o have o': "state (entries ht ! t) = ENTRY_OCCUPIED"
        by simp
      have "key (entries ht ! t) \<noteq> k"
      proof
        assume "key (entries ht ! t) = k"
        with ks have "key (entries ht ! t) = key (entries ht ! ?s)"
          by simp
        from key_unique [OF inv _ s o' occ this] t ts show False
          by simp
      qed
      with ts show "key (entries ?ht' ! t) \<noteq> k"
        by simp
    qed
    have d': "d < capacity ?ht'"
      using x(1) by simp
    from cand_insert_ready [OF inv' scan' d' cand' stop' fresh']
    show ?thesis
      using x(6) s occ ks x(4) by (intro expired [of ?s slot]) simp_all
  qed
qed

lemma probe_present:
  assumes inv: "ht_inv ht" and st: "stored ht k s"
    and live: "\<not> is_expired now (entries ht ! s)"
  shows "probe ht k now = (ht, s, True)"
proof (rule probe_cases [OF inv, of k now])
  fix slot
  assume p: "probe ht k now = (ht, slot, True)" and "slot < capacity ht"
    "state (entries ht ! slot) = ENTRY_OCCUPIED" "key (entries ht ! slot) = k"
  with st have "slot = s"
    by (intro key_unique [OF inv]) (simp_all add: stored_def)
  with p show ?thesis
    by simp
next
  fix slot
  assume "insert_ready ht k slot"
  with st have False
    unfolding insert_ready_def stored_def by blast
  then show ?thesis ..
next
  fix s' slot
  assume "s' < capacity ht" "state (entries ht ! s') = ENTRY_OCCUPIED"
    "key (entries ht ! s') = k" and x: "is_expired now (entries ht ! s')"
  with st have "s' = s"
    by (intro key_unique [OF inv]) (simp_all add: stored_def)
  with x live have False
    by simp
  then show ?thesis ..
qed

lemma probe_present_expired:
  assumes inv: "ht_inv ht" and st: "stored ht k s"
    and dead: "is_expired now (entries ht ! s)"
  shows "\<exists>slot. probe ht k now = (tombstoned ht s, slot, False)"
proof (rule probe_cases [OF inv, of k now])
  fix slot
  assume "slot < capacity ht"
    "state (entries ht ! slot) = ENTRY_OCCUPIED" "key (entries ht ! slot) = k"
    and l: "\<not> is_expired now (entries ht ! slot)"
  with st have "slot = s"
    by (intro key_unique [OF inv]) (simp_all add: stored_def)
  with l dead have False
    by simp
  then show ?thesis ..
next
  fix slot
  assume "insert_ready ht k slot"
  with st have False
    unfolding insert_ready_def stored_def by blast
  then show ?thesis ..
next
  fix s' slot
  assume p: "probe ht k now = (tombstoned ht s', slot, False)"
    and "s' < capacity ht" "state (entries ht ! s') = ENTRY_OCCUPIED"
    "key (entries ht ! s') = k"
  with st have "s' = s"
    by (intro key_unique [OF inv]) (simp_all add: stored_def)
  with p show ?thesis
    by simp
qed

lemma probe_absent:
  assumes inv: "ht_inv ht" and none: "\<forall>s. \<not> stored ht k s"
  shows "\<exists>slot. probe ht k now = (ht, slot, False)"
proof (rule probe_cases [OF inv, of k now])
  fix slot
  assume "slot < capacity ht"
    "state (entries ht ! slot) = ENTRY_OCCUPIED" "key (entries ht ! slot) = k"
  then have "stored ht k slot"
    by (simp add: stored_def)
  with none have False
    by simp
  then show ?thesis ..
next
  fix slot
  assume "probe ht k now = (ht, slot, False)"
  then show ?thesis
    by blast
next
  fix s' slot
  assume "s' < capacity ht" "state (entries ht ! s') = ENTRY_OCCUPIED"
    "key (entries ht ! s') = k"
  then have "stored ht k s'"
    by (simp add: stored_def)
  with none have False
    by simp
  then show ?thesis ..
qed

lemma probe_inv:
  assumes inv: "ht_inv ht" and p: "probe ht k now = (ht', slot, found)"
  shows "ht_inv ht' \<and> capacity ht' = capacity ht \<and> used ht' = used ht"
proof (rule probe_cases [OF inv, of k now])
  fix slot'
  assume "probe ht k now = (ht, slot', True)"
  with p inv show ?thesis
    by simp
next
  fix slot'
  assume "probe ht k now = (ht, slot', False)"
  with p inv show ?thesis
    by simp
next
  fix s slot'
  assume q: "probe ht k now = (tombstoned ht s, slot', False)"
    and s: "s < capacity ht" "state (entries ht ! s) = ENTRY_OCCUPIED"
  from p q have "ht' = tombstoned ht s"
    by simp
  with tombstoned_inv [OF inv s] show ?thesis
    by simp
qed

lemma payload_inv:
  assumes inv: "ht_inv ht" and s: "s < capacity ht"
    and e': "state e' = state (entries ht ! s)" "key e' = key (entries ht ! s)"
  shows "ht_inv (ht\<lparr>entries := (entries ht)[s := e']\<rparr>)"
proof -
  from inv obtain m where cap: "capacity ht = 2 ^ m" "2 \<le> m"
    and len: "length (entries ht) = capacity ht"
    by (rule ht_inv_capD)
  from inv have cnt: "counters_ok ht" "used ht < capacity ht" and ok: "probe_chain_ok ht"
    by (simp_all add: ht_inv_def)
  from s len have s': "s < length (entries ht)"
    by simp
  from occupied_count_update [OF s', of e'] e'(1)
  have o: "occupied_count ((entries ht)[s := e']) = occupied_count (entries ht)"
    by (cases "state (entries ht ! s) = ENTRY_OCCUPIED") simp_all
  from tombstone_count_update [OF s', of e'] e'(1)
  have t: "tombstone_count ((entries ht)[s := e']) = tombstone_count (entries ht)"
    by (cases "state (entries ht ! s) = ENTRY_TOMBSTONE") simp_all
  from cnt(1) o t have "counters_ok (ht\<lparr>entries := (entries ht)[s := e']\<rparr>)"
    by (simp add: counters_ok_def)
  moreover have "probe_chain_ok (ht\<lparr>entries := (entries ht)[s := e']\<rparr>)"
    by (rule chain_ok_update_payload [OF ok s' e'])
  moreover have "\<exists>m\<ge>2. capacity ht = 2 ^ m"
    using cap by blast
  ultimately show ?thesis
    using len cnt(2) by (simp add: ht_inv_def)
qed

lemma insert_inv:
  assumes inv: "ht_inv ht" and load: "\<not> load_exceeded ht"
    and ready: "insert_ready ht k slot"
    and e': "state e' = ENTRY_OCCUPIED" "key e' = k"
  shows "ht_inv (ht\<lparr>entries := (entries ht)[slot := e'], count := count ht + 1,
           used := (if state (entries ht ! slot) = ENTRY_EMPTY then used ht + 1 else used ht)\<rparr>)"
    (is "ht_inv ?ht'")
proof -
  from inv obtain m where cap: "capacity ht = 2 ^ m" "2 \<le> m"
    and len: "length (entries ht) = capacity ht"
    by (rule ht_inv_capD)
  from inv have cnt: "count ht = occupied_count (entries ht)"
    "used ht = occupied_count (entries ht) + tombstone_count (entries ht)"
    "used ht < capacity ht" and ok: "probe_chain_ok ht"
    by (simp_all add: ht_inv_def counters_ok_def)
  from ready have s: "slot < capacity ht" and nocc: "state (entries ht ! slot) \<noteq> ENTRY_OCCUPIED"
    and chain: "chain_to (entries ht) (capacity ht) k slot"
    and fresh: "\<forall>t<capacity ht. state (entries ht ! t) = ENTRY_OCCUPIED \<longrightarrow> key (entries ht ! t) \<noteq> k"
    by (simp_all add: insert_ready_def)
  from s len have s': "slot < length (entries ht)"
    by simp
  from occupied_count_update [OF s', of e'] e'(1) nocc
  have o: "occupied_count ((entries ht)[slot := e']) = occupied_count (entries ht) + 1"
    by simp
  from tombstone_count_update [OF s', of e'] e'(1)
  have t: "tombstone_count ((entries ht)[slot := e'])
      + (if state (entries ht ! slot) = ENTRY_TOMBSTONE then 1 else 0)
      = tombstone_count (entries ht)"
    by simp
  have "4 \<le> (2::nat) ^ m"
    using power_increasing [of 2 m "2::nat"] cap(2) by simp
  with cap(1) have "4 \<le> capacity ht"
    by simp
  with load have room: "used ht + 1 < capacity ht"
    by (simp add: load_exceeded_def)
  have "counters_ok ?ht' \<and> used ?ht' < capacity ?ht'"
  proof (cases "state (entries ht ! slot)")
    case ENTRY_EMPTY
    with o t cnt room show ?thesis
      by (simp add: counters_ok_def)
  next
    case ENTRY_OCCUPIED
    with nocc show ?thesis
      by simp
  next
    case ENTRY_TOMBSTONE
    with t have "tombstone_count ((entries ht)[slot := e']) + 1 = tombstone_count (entries ht)"
      by simp
    with ENTRY_TOMBSTONE o cnt show ?thesis
      by (simp add: counters_ok_def)
  qed
  moreover have "probe_chain_ok ?ht'"
    by (rule chain_ok_update_insert [OF ok cap(1) len s nocc chain fresh e'])
  moreover have "\<exists>m\<ge>2. capacity ht = 2 ^ m"
    using cap by blast
  ultimately show ?thesis
    using len by (simp add: ht_inv_def)
qed

lemma ht_set_small:
  assumes inv: "ht_inv ht" and load: "\<not> load_exceeded ht"
  shows "\<exists>ht' b s. ht_set ht k v now = Some (ht', b) \<and> ht_inv ht'
           \<and> capacity ht' = capacity ht \<and> stored ht' k s
           \<and> val (entries ht' ! s) = v \<and> expire_at (entries ht' ! s) = - 1"
proof (rule probe_cases [OF inv, of k now])
  fix slot
  assume p: "probe ht k now = (ht, slot, True)" and s: "slot < capacity ht"
    and o: "state (entries ht ! slot) = ENTRY_OCCUPIED" "key (entries ht ! slot) = k"
  let ?e' = "(entries ht ! slot)\<lparr>key := k, val := v, expire_at := - 1\<rparr>"
  let ?ht' = "ht\<lparr>entries := (entries ht)[slot := ?e']\<rparr>"
  from inv have len: "length (entries ht) = capacity ht"
    by (simp add: ht_inv_def)
  from load p have "ht_set ht k v now = Some (?ht', False)"
    by (simp add: ht_set_def)
  moreover have "ht_inv ?ht'"
    using o by (intro payload_inv [OF inv s]) simp_all
  moreover have "stored ?ht' k slot \<and> val (entries ?ht' ! slot) = v
      \<and> expire_at (entries ?ht' ! slot) = - 1"
    using s len o by (simp add: stored_def)
  ultimately show ?thesis
    by (intro exI [of _ ?ht'] exI [of _ False] exI [of _ slot]) simp
next
  fix slot
  assume p: "probe ht k now = (ht, slot, False)" and r: "insert_ready ht k slot"
  let ?e' = "(entries ht ! slot)\<lparr>state := ENTRY_OCCUPIED, key := k, val := v, expire_at := - 1\<rparr>"
  let ?ht' = "ht\<lparr>entries := (entries ht)[slot := ?e'], count := count ht + 1,
           used := (if state (entries ht ! slot) = ENTRY_EMPTY then used ht + 1 else used ht)\<rparr>"
  from inv have len: "length (entries ht) = capacity ht"
    by (simp add: ht_inv_def)
  from r have s: "slot < capacity ht"
    by (simp add: insert_ready_def)
  from load p have "ht_set ht k v now = Some (?ht', True)"
    by (simp add: ht_set_def Let_def)
  moreover have "ht_inv ?ht'"
    by (rule insert_inv [OF inv load r]) simp_all
  moreover have "stored ?ht' k slot \<and> val (entries ?ht' ! slot) = v
      \<and> expire_at (entries ?ht' ! slot) = - 1"
    using s len by (simp add: stored_def)
  ultimately show ?thesis
    by (intro exI [of _ ?ht'] exI [of _ True] exI [of _ slot]) simp
next
  fix s slot
  assume p: "probe ht k now = (tombstoned ht s, slot, False)"
    and s: "s < capacity ht" "state (entries ht ! s) = ENTRY_OCCUPIED"
    and r: "insert_ready (tombstoned ht s) k slot"
  let ?ht1 = "tombstoned ht s"
  let ?e' = "(entries ?ht1 ! slot)\<lparr>state := ENTRY_OCCUPIED, key := k, val := v, expire_at := - 1\<rparr>"
  let ?ht' = "?ht1\<lparr>entries := (entries ?ht1)[slot := ?e'], count := count ?ht1 + 1,
           used := (if state (entries ?ht1 ! slot) = ENTRY_EMPTY then used ?ht1 + 1 else used ?ht1)\<rparr>"
  have inv1: "ht_inv ?ht1"
    by (rule tombstoned_inv [OF inv s])
  then have len: "length (entries ?ht1) = capacity ?ht1"
    by (simp add: ht_inv_def)
  from load have load1: "\<not> load_exceeded ?ht1"
    by (simp add: load_exceeded_def)
  from r have sl: "slot < capacity ?ht1"
    by (simp add: insert_ready_def)
  from load p have "ht_set ht k v now = Some (?ht', True)"
    by (simp add: ht_set_def Let_def)
  moreover have "ht_inv ?ht'"
    by (rule insert_inv [OF inv1 load1 r]) simp_all
  moreover have "stored ?ht' k slot \<and> val (entries ?ht' ! slot) = v
      \<and> expire_at (entries ?ht' ! slot) = - 1"
    using sl len unfolding stored_def by simp
  moreover have "capacity ?ht' = capacity ht"
    by simp
  ultimately show ?thesis
    by (intro exI [of _ ?ht'] exI [of _ True] exI [of _ slot]) simp
qed

lemma ht_set_resize:
  "load_exceeded ht \<Longrightarrow> ht_resize ht = Some ht1 \<Longrightarrow> \<not> load_exceeded ht1 \<Longrightarrow>
     ht_set ht k v now = ht_set ht1 k v now"
  by (simp add: ht_set_def)

lemma ht_get_inv:
  "ht_inv ht \<Longrightarrow> ht_inv (fst (ht_get ht k now))
     \<and> capacity (fst (ht_get ht k now)) = capacity ht"
  using probe_inv [of ht k now]
  by (cases "probe ht k now") (simp add: ht_get_def)

lemma ht_exists_inv:
  "ht_inv ht \<Longrightarrow> ht_inv (fst (ht_exists ht k now))
     \<and> capacity (fst (ht_exists ht k now)) = capacity ht"
  using probe_inv [of ht k now]
  by (cases "probe ht k now") (simp add: ht_exists_def)

lemma ht_get_expire_inv:
  "ht_inv ht \<Longrightarrow> ht_inv (fst (ht_get_expire ht k now))
     \<and> capacity (fst (ht_get_expire ht k now)) = capacity ht"
  using probe_inv [of ht k now]
  by (cases "probe ht k now") (simp add: ht_get_expire_def)

lemma ht_delete_inv:
  assumes inv: "ht_inv ht"
  shows "ht_inv (fst (ht_delete ht k now)) \<and> capacity (fst (ht_delete ht k now)) = capacity ht
     \<and> used (fst (ht_delete ht k now)) = used ht"
proof (rule probe_cases [OF inv, of k now])
  fix slot
  assume p: "probe ht k now = (ht, slot, True)" and s: "slot < capacity ht"
    "state (entries ht ! slot) = ENTRY_OCCUPIED"
  then have "fst (ht_delete ht k now) = tombstoned ht slot"
    by (simp add: ht_delete_def tombstoned_def)
  with tombstoned_inv [OF inv s] show ?thesis
    by simp
next
  fix slot
  assume "probe ht k now = (ht, slot, False)"
  with inv show ?thesis
    by (simp add: ht_delete_def)
next
  fix s slot
  assume "probe ht k now = (tombstoned ht s, slot, False)"
    and "s < capacity ht" "state (entries ht ! s) = ENTRY_OCCUPIED"
  with tombstoned_inv [OF inv, of s] show ?thesis
    by (simp add: ht_delete_def)
qed

lemma ht_set_expire_inv:
  assumes inv: "ht_inv ht"
  shows "ht_inv (ht_set_expire ht k x now) \<and> capacity (ht_set_expire ht k x now) = capacity ht
     \<and> used (ht_set_expire ht k x now) = used ht"
proof (rule probe_cases [OF inv, of k now])
  fix slot
  assume p: "probe ht k now = (ht, slot, True)" and s: "slot < capacity ht"
  then have "ht_set_expire ht k x now
      = ht\<lparr>entries := (entries ht)[slot := (entries ht ! slot)\<lparr>expire_at := x\<rparr>]\<rparr>"
    by (simp add: ht_set_expire_def)
  moreover have "ht_inv (ht\<lparr>entries := (entries ht)[slot := (entries ht ! slot)\<lparr>expire_at := x\<rparr>]\<rparr>)"
    by (rule payload_inv [OF inv s]) simp_all
  ultimately show ?thesis
    by simp
next
  fix slot
  assume "probe ht k now = (ht, slot, False)"
  with inv show ?thesis
    by (simp add: ht_set_expire_def)
next
  fix s slot
  assume "probe ht k now = (tombstoned ht s, slot, False)"
    and "s < capacity ht" "state (entries ht ! s) = ENTRY_OCCUPIED"
  with tombstoned_inv [OF inv, of s] show ?thesis
    by (simp add: ht_set_expire_def)
qed

lemma ht_iter_next_inv:
  "ht_inv ht \<Longrightarrow> ht_inv (fst (ht_iter_next ht index now))"
proof (induction ht index now rule: ht_iter_next.induct)
  case (1 ht index now)
  show ?case
  proof (cases "index < capacity ht")
    case False
    with "1.prems" show ?thesis
      by (subst ht_iter_next.simps) simp
  next
    case lt: True
    show ?thesis
    proof (cases "state (entries ht ! index) \<noteq> ENTRY_OCCUPIED")
      case True
      with lt have "ht_iter_next ht index now = ht_iter_next ht (index + 1) now"
        by (subst ht_iter_next.simps) (simp add: Let_def)
      with "1.IH"(1) [OF lt refl True "1.prems"] show ?thesis
        by simp
    next
      case occ: False
      show ?thesis
      proof (cases "is_expired now (entries ht ! index)")
        case True
        with lt occ have "ht_iter_next ht index now
            = ht_iter_next (tombstoned ht index) (index + 1) now"
          by (subst ht_iter_next.simps) (simp add: Let_def tombstoned_def)
        moreover from occ have "ht_inv (tombstoned ht index)"
          by (intro tombstoned_inv [OF "1.prems" lt]) simp
        ultimately show ?thesis
          using "1.IH"(2) [OF lt refl occ True] by (simp add: tombstoned_def)
      next
        case False
        with lt occ have "fst (ht_iter_next ht index now) = ht"
          by (subst ht_iter_next.simps) (simp add: Let_def)
        with "1.prems" show ?thesis
          by simp
      qed
    qed
  qed
qed

lemma slot_of_0: "slot_of (2 ^ m) k 0 = unat (fnv1a_hash k) AND (2 ^ m - 1)"
  by (simp only: slot_of_mod and_mask_mod add_0_right)

lemma slot_of_Suc: "(slot_of (2 ^ m) k j + 1) AND (2 ^ m - 1) = slot_of (2 ^ m) k (Suc j)"
  by (simp only: slot_of_mod and_mask_mod) (simp add: mod_Suc_eq)

lemma resize_find_slot_steps:
  assumes free: "state (es ! slot_of (2 ^ m) k d) \<noteq> ENTRY_OCCUPIED"
    and occ: "\<forall>j<d. state (es ! slot_of (2 ^ m) k j) = ENTRY_OCCUPIED"
  shows "j \<le> d \<Longrightarrow>
    resize_find_slot es (2 ^ m) (slot_of (2 ^ m) k j) = Some (slot_of (2 ^ m) k d)"
proof (induction "d - j" arbitrary: j)
  case 0
  then have "j = d"
    by simp
  with free show ?case
    by (intro trans [OF resize_find_slot.simps]) simp
next
  case (Suc n)
  then have lt: "j < d" and n: "n = d - Suc j" and le: "Suc j \<le> d"
    by simp_all
  from occ lt have "state (es ! slot_of (2 ^ m) k j) = ENTRY_OCCUPIED"
    by simp
  then have "resize_find_slot es (2 ^ m) (slot_of (2 ^ m) k j)
      = resize_find_slot es (2 ^ m) ((slot_of (2 ^ m) k j + 1) AND (2 ^ m - 1))"
    by (intro trans [OF resize_find_slot.simps]) simp
  also have "\<dots> = resize_find_slot es (2 ^ m) (slot_of (2 ^ m) k (Suc j))"
    by (simp only: slot_of_Suc)
  also from Suc.hyps(1) [OF n le] have "\<dots> = Some (slot_of (2 ^ m) k d)" .
  finally show ?case .
qed

lemma exists_not_occupied:
  assumes "occupied_count es < length es"
  shows "\<exists>s<length es. state (es ! s) \<noteq> ENTRY_OCCUPIED"
proof (rule ccontr)
  assume "\<not> (\<exists>s<length es. state (es ! s) \<noteq> ENTRY_OCCUPIED)"
  then have "\<forall>e\<in>set es. state e = ENTRY_OCCUPIED"
    by (auto simp: in_set_conv_nth)
  then have "filter (\<lambda>e. state e = ENTRY_OCCUPIED) es = es"
    by (simp add: filter_id_conv)
  with assms show False
    by (simp add: occupied_count_def)
qed

lemma first_free:
  assumes len: "length es = 2 ^ m" and room: "occupied_count es < 2 ^ m"
  shows "\<exists>d<2 ^ m. state (es ! slot_of (2 ^ m) k d) \<noteq> ENTRY_OCCUPIED
           \<and> (\<forall>j<d. state (es ! slot_of (2 ^ m) k j) = ENTRY_OCCUPIED)"
proof -
  from exists_not_occupied [of es] len room
  obtain s where s: "s < 2 ^ m" "state (es ! s) \<noteq> ENTRY_OCCUPIED"
    by auto
  from slot_of_surj [OF s(1), of k]
  obtain d0 where d0: "d0 < 2 ^ m" "slot_of (2 ^ m) k d0 = s"
    by blast
  define P where "P d = (state (es ! slot_of (2 ^ m) k d) \<noteq> ENTRY_OCCUPIED)" for d
  from d0 s have P0: "P d0"
    by (simp add: P_def)
  define d where "d = (LEAST d. P d)"
  have Pd: "P d"
    unfolding d_def by (rule LeastI [of P, OF P0])
  have "d \<le> d0"
    unfolding d_def by (rule Least_le [of P, OF P0])
  with d0(1) have dlt: "d < 2 ^ m"
    by simp
  have "\<not> P j" if "j < d" for j
    using that unfolding d_def by (rule not_less_Least)
  with Pd dlt show ?thesis
    unfolding P_def by blast
qed

lemma fresh_table_insert:
  assumes ft: "fresh_table es (2 ^ m)" and d: "d < 2 ^ m"
    and free: "state (es ! slot_of (2 ^ m) (key e) d) \<noteq> ENTRY_OCCUPIED"
    and occ: "\<forall>j<d. state (es ! slot_of (2 ^ m) (key e) j) = ENTRY_OCCUPIED"
    and new: "\<forall>s<2 ^ m. state (es ! s) = ENTRY_OCCUPIED \<longrightarrow> key (es ! s) \<noteq> key e"
    and e: "state e = ENTRY_OCCUPIED"
  shows "fresh_table (es[slot_of (2 ^ m) (key e) d := e]) (2 ^ m)"
proof -
  let ?cap = "(2::nat) ^ m"
  let ?idx = "slot_of ?cap (key e) d"
  let ?ht = "\<lparr>entries = es, capacity = ?cap, count = 0, used = 0\<rparr>"
  from ft have len: "length es = ?cap"
    and notomb: "\<forall>s<?cap. state (es ! s) \<noteq> ENTRY_TOMBSTONE"
    and ok: "probe_chain_ok ?ht"
    by (simp_all add: fresh_table_def probe_chain_ok_def)
  have idx: "?idx < ?cap"
    by (rule slot_of_lt)
  have "passed es ?cap (key e) j" if "j < d" for j
  proof -
    from occ that have o: "state (es ! slot_of ?cap (key e) j) = ENTRY_OCCUPIED"
      by simp
    moreover have "slot_of ?cap (key e) j < ?cap"
      by (rule slot_of_lt)
    ultimately have "key (es ! slot_of ?cap (key e) j) \<noteq> key e"
      using new by blast
    with o show ?thesis
      by (simp add: passed_def)
  qed
  with d have chain: "chain_to (entries ?ht) (capacity ?ht) (key e) ?idx"
    unfolding chain_to_def by auto
  have "probe_chain_ok (?ht\<lparr>entries := (entries ?ht)[?idx := e], count := 0, used := 0\<rparr>)"
    by (rule chain_ok_update_insert [OF ok _ _ _ _ chain _ e refl, of m])
      (use len idx free new in simp_all)
  then have "\<forall>s<?cap. state (es[?idx := e] ! s) = ENTRY_OCCUPIED \<longrightarrow>
      chain_to (es[?idx := e]) ?cap (key (es[?idx := e] ! s)) s"
    by (simp add: probe_chain_ok_def)
  moreover have "\<forall>s<?cap. state (es[?idx := e] ! s) \<noteq> ENTRY_TOMBSTONE"
  proof (intro allI impI)
    fix s assume "s < ?cap"
    with notomb e len show "state (es[?idx := e] ! s) \<noteq> ENTRY_TOMBSTONE"
      by (cases "s = ?idx") simp_all
  qed
  ultimately show ?thesis
    using len unfolding fresh_table_def by simp
qed

lemma set_update_occ:
  assumes "idx < length es" "state (es ! idx) \<noteq> ENTRY_OCCUPIED" "state x = ENTRY_OCCUPIED"
  shows "x \<in> set (es[idx := e]) \<longleftrightarrow> x = e \<or> x \<in> set es"
proof
  assume "x \<in> set (es[idx := e])"
  with set_update_subset_insert [of es idx e] show "x = e \<or> x \<in> set es"
    by auto
next
  assume "x = e \<or> x \<in> set es"
  then show "x \<in> set (es[idx := e])"
  proof
    assume "x = e"
    with assms(1) show ?thesis
      by (simp add: set_update_memI)
  next
    assume "x \<in> set es"
    then obtain i where i: "i < length es" "es ! i = x"
      by (auto simp: in_set_conv_nth)
    with assms(2,3) have "i \<noteq> idx"
      by auto
    with i have "es[idx := e] ! i = x" "i < length (es[idx := e])"
      by simp_all
    then show ?thesis
      using nth_mem by blast
  qed
qed

lemma distinct_keys:
  assumes "\<forall>i<length es. \<forall>j<length es.
      state (es ! i) = ENTRY_OCCUPIED \<and> state (es ! j) = ENTRY_OCCUPIED
        \<and> key (es ! i) = key (es ! j) \<longrightarrow> i = j"
  shows "distinct (map key (filter (\<lambda>e. state e = ENTRY_OCCUPIED) es))"
  using assms
proof (induction es)
  case Nil
  show ?case
    by simp
next
  case (Cons e es)
  have tl: "\<forall>i<length es. \<forall>j<length es.
      state (es ! i) = ENTRY_OCCUPIED \<and> state (es ! j) = ENTRY_OCCUPIED
        \<and> key (es ! i) = key (es ! j) \<longrightarrow> i = j"
  proof (intro allI impI)
    fix i j
    assume "i < length es" "j < length es"
      and "state (es ! i) = ENTRY_OCCUPIED \<and> state (es ! j) = ENTRY_OCCUPIED
        \<and> key (es ! i) = key (es ! j)"
    with Cons.prems [rule_format, of "Suc i" "Suc j"] show "i = j"
      by simp
  qed
  have hd: "key e \<noteq> key x" if "state e = ENTRY_OCCUPIED" "x \<in> set es" "state x = ENTRY_OCCUPIED" for x
  proof
    assume k: "key e = key x"
    from that(2) obtain j where j: "j < length es" "es ! j = x"
      by (auto simp: in_set_conv_nth)
    with Cons.prems [rule_format, of 0 "Suc j"] that(1,3) k show False
      by simp
  qed
  from Cons.IH [OF tl] hd show ?case
    by auto
qed

lemma resize_loop_spec:
  assumes "fresh_table new (2 ^ m)"
    and "occupied_count new + occupied_count old < 2 ^ m"
    and "distinct (map key (filter (\<lambda>e. state e = ENTRY_OCCUPIED) old))"
    and "\<forall>e\<in>set old. state e = ENTRY_OCCUPIED \<longrightarrow>
           (\<forall>s<2 ^ m. state (new ! s) = ENTRY_OCCUPIED \<longrightarrow> key (new ! s) \<noteq> key e)"
  shows "\<exists>new'. resize_loop old new (2 ^ m) = Some new' \<and> fresh_table new' (2 ^ m)
           \<and> occupied_count new' = occupied_count new + occupied_count old
           \<and> (\<forall>x. state x = ENTRY_OCCUPIED \<longrightarrow> (x \<in> set new' \<longleftrightarrow> x \<in> set new \<or> x \<in> set old))"
  using assms
proof (induction old arbitrary: new)
  case Nil
  then show ?case
    by (simp add: occupied_count_def)
next
  case (Cons e old)
  let ?cap = "(2::nat) ^ m"
  show ?case
  proof (cases "state e = ENTRY_OCCUPIED")
    case False
    then have cnt: "occupied_count (e # old) = occupied_count old"
      by (simp add: occupied_count_def)
    from False Cons.prems(3) have dist: "distinct (map key (filter (\<lambda>e. state e = ENTRY_OCCUPIED) old))"
      by simp
    from Cons.prems(4) have keys: "\<forall>e\<in>set old. state e = ENTRY_OCCUPIED \<longrightarrow>
           (\<forall>s<?cap. state (new ! s) = ENTRY_OCCUPIED \<longrightarrow> key (new ! s) \<noteq> key e)"
      by simp
    from Cons.prems(2) cnt have room: "occupied_count new + occupied_count old < ?cap"
      by simp
    from Cons.IH [OF Cons.prems(1) room dist keys] obtain new' where
      r: "resize_loop old new ?cap = Some new'" "fresh_table new' ?cap"
        "occupied_count new' = occupied_count new + occupied_count old"
        "\<forall>x. state x = ENTRY_OCCUPIED \<longrightarrow> (x \<in> set new' \<longleftrightarrow> x \<in> set new \<or> x \<in> set old)"
      by blast
    from False r(1) have "resize_loop (e # old) new ?cap = Some new'"
      by simp
    moreover from r(4) False
    have "\<forall>x. state x = ENTRY_OCCUPIED \<longrightarrow> (x \<in> set new' \<longleftrightarrow> x \<in> set new \<or> x \<in> set (e # old))"
      by auto
    ultimately show ?thesis
      using r(2,3) cnt by simp
  next
    case True
    then have cnt: "occupied_count (e # old) = occupied_count old + 1"
      by (simp add: occupied_count_def)
    from Cons.prems(1) have len: "length new = ?cap"
      by (simp add: fresh_table_def)
    from Cons.prems(2) have "occupied_count new < ?cap"
      by simp
    from first_free [OF len this, of "key e"] obtain d where
      d: "d < ?cap" "state (new ! slot_of ?cap (key e) d) \<noteq> ENTRY_OCCUPIED"
        "\<forall>j<d. state (new ! slot_of ?cap (key e) j) = ENTRY_OCCUPIED"
      by blast
    let ?idx = "slot_of ?cap (key e) d"
    let ?new1 = "new[?idx := e]"
    have idx: "?idx < length new"
      using slot_of_lt [of m "key e" d] len by simp
    from resize_find_slot_steps [OF d(2) d(3), of 0]
    have find: "resize_find_slot new ?cap (unat (fnv1a_hash (key e)) AND (?cap - 1)) = Some ?idx"
      by (simp only: slot_of_0)
    from Cons.prems(4) True
    have fresh_e: "\<forall>s<?cap. state (new ! s) = ENTRY_OCCUPIED \<longrightarrow> key (new ! s) \<noteq> key e"
      by simp
    have ft1: "fresh_table ?new1 ?cap"
      by (rule fresh_table_insert [OF Cons.prems(1) d(1) d(2) d(3) fresh_e True])
    from occupied_count_update [OF idx, of e] d(2) True
    have cnt1: "occupied_count ?new1 = occupied_count new + 1"
      by simp
    with Cons.prems(2) cnt have room: "occupied_count ?new1 + occupied_count old < ?cap"
      by simp
    from True Cons.prems(3) have dist: "distinct (map key (filter (\<lambda>e. state e = ENTRY_OCCUPIED) old))"
      and notin: "key e \<notin> key ` {x \<in> set old. state x = ENTRY_OCCUPIED}"
      by simp_all
    have keys: "\<forall>e'\<in>set old. state e' = ENTRY_OCCUPIED \<longrightarrow>
           (\<forall>s<?cap. state (?new1 ! s) = ENTRY_OCCUPIED \<longrightarrow> key (?new1 ! s) \<noteq> key e')"
    proof (intro ballI allI impI)
      fix e' s
      assume e': "e' \<in> set old" "state e' = ENTRY_OCCUPIED"
        and s: "s < ?cap" "state (?new1 ! s) = ENTRY_OCCUPIED"
      show "key (?new1 ! s) \<noteq> key e'"
      proof (cases "s = ?idx")
        case True
        from notin e' have "key e \<noteq> key e'"
          by blast
        with True idx show ?thesis
          by simp
      next
        case False
        with s have "state (new ! s) = ENTRY_OCCUPIED"
          by simp
        with Cons.prems(4) e' s(1) have "key (new ! s) \<noteq> key e'"
          by simp
        with False show ?thesis
          by simp
      qed
    qed
    from Cons.IH [OF ft1 room dist keys] obtain new' where
      r: "resize_loop old ?new1 ?cap = Some new'" "fresh_table new' ?cap"
        "occupied_count new' = occupied_count ?new1 + occupied_count old"
        "\<forall>x. state x = ENTRY_OCCUPIED \<longrightarrow> (x \<in> set new' \<longleftrightarrow> x \<in> set ?new1 \<or> x \<in> set old)"
      by blast
    from True find r(1) have "resize_loop (e # old) new ?cap = Some new'"
      by simp
    moreover have "\<forall>x. state x = ENTRY_OCCUPIED \<longrightarrow>
        (x \<in> set new' \<longleftrightarrow> x \<in> set new \<or> x \<in> set (e # old))"
    proof (intro allI impI)
      fix x :: ht_entry_t
      assume x: "state x = ENTRY_OCCUPIED"
      from set_update_occ [OF idx d(2) x, of e] r(4) x
      show "x \<in> set new' \<longleftrightarrow> x \<in> set new \<or> x \<in> set (e # old)"
        by auto
    qed
    ultimately show ?thesis
      using r(2,3) cnt cnt1 by simp
  qed
qed

lemma occupied_count_replicate [simp]: "occupied_count (replicate n empty_entry) = 0"
  by (simp add: occupied_count_def empty_entry_def)

lemma fresh_table_replicate: "fresh_table (replicate n empty_entry) n"
  by (simp add: fresh_table_def empty_entry_def)

lemma tombstone_count_fresh: "fresh_table es cap \<Longrightarrow> tombstone_count es = 0"
  by (auto simp: fresh_table_def tombstone_count_def filter_empty_conv in_set_conv_nth)

lemma ht_resize_spec:
  assumes inv: "ht_inv ht"
  shows "\<exists>ht1. ht_resize ht = Some ht1 \<and> ht_inv ht1 \<and> capacity ht1 = 2 * capacity ht
           \<and> count ht1 = count ht \<and> used ht1 = count ht1
           \<and> tombstone_count (entries ht1) = 0
           \<and> (\<forall>x. state x = ENTRY_OCCUPIED \<longrightarrow> (x \<in> set (entries ht1) \<longleftrightarrow> x \<in> set (entries ht)))
           \<and> \<not> load_exceeded ht1"
proof -
  from inv obtain m where cap: "capacity ht = 2 ^ m" "2 \<le> m"
    and len: "length (entries ht) = capacity ht"
    by (rule ht_inv_capD)
  from inv have cnt: "count ht = occupied_count (entries ht)"
    "used ht = occupied_count (entries ht) + tombstone_count (entries ht)"
    "used ht < capacity ht"
    by (simp_all add: ht_inv_def counters_ok_def)
  let ?cap' = "(2::nat) ^ Suc m"
  let ?new = "replicate ?cap' empty_entry"
  have cap': "capacity ht * 2 = ?cap'"
    using cap(1) by simp
  have ft: "fresh_table ?new ?cap'"
    by (rule fresh_table_replicate)
  from cnt cap(1) have room: "occupied_count ?new + occupied_count (entries ht) < ?cap'"
    by simp
  have dist: "distinct (map key (filter (\<lambda>e. state e = ENTRY_OCCUPIED) (entries ht)))"
  proof (rule distinct_keys, intro allI impI)
    fix i j
    assume "i < length (entries ht)" "j < length (entries ht)"
      and "state (entries ht ! i) = ENTRY_OCCUPIED \<and> state (entries ht ! j) = ENTRY_OCCUPIED
        \<and> key (entries ht ! i) = key (entries ht ! j)"
    with len show "i = j"
      by (intro key_unique [OF inv]) simp_all
  qed
  have keys: "\<forall>e\<in>set (entries ht). state e = ENTRY_OCCUPIED \<longrightarrow>
           (\<forall>s<?cap'. state (?new ! s) = ENTRY_OCCUPIED \<longrightarrow> key (?new ! s) \<noteq> key e)"
    by (simp add: empty_entry_def)
  from resize_loop_spec [OF ft room dist keys] obtain new' where
    r: "resize_loop (entries ht) ?new ?cap' = Some new'" "fresh_table new' ?cap'"
      "occupied_count new' = occupied_count ?new + occupied_count (entries ht)"
      "\<forall>x. state x = ENTRY_OCCUPIED \<longrightarrow> (x \<in> set new' \<longleftrightarrow> x \<in> set ?new \<or> x \<in> set (entries ht))"
    by blast
  let ?ht1 = "ht\<lparr>entries := new', capacity := ?cap', used := count ht\<rparr>"
  from len have tk: "take (capacity ht) (entries ht) = entries ht"
    by simp
  have res: "ht_resize ht = Some ?ht1"
    unfolding ht_resize_def Let_def tk cap' using r(1) by simp
  from r(2) have t0: "tombstone_count new' = 0"
    by (rule tombstone_count_fresh)
  from r(2) have len': "length new' = ?cap'"
    by (simp add: fresh_table_def)
  from r(3) have o': "occupied_count new' = occupied_count (entries ht)"
    by simp
  from r(2) have "probe_chain_ok ?ht1"
    by (simp add: fresh_table_def probe_chain_ok_def)
  moreover from t0 o' cnt cap(1) have "counters_ok ?ht1"
    by (simp add: counters_ok_def)
  moreover from cnt cap(1) have "used ?ht1 < capacity ?ht1"
    by simp
  moreover have "\<exists>m'\<ge>2. capacity ?ht1 = 2 ^ m'"
    using cap(2) by (intro exI [of _ "Suc m"]) simp
  ultimately have inv1: "ht_inv ?ht1"
    using len' by (simp add: ht_inv_def)
  have set1: "\<forall>x. state x = ENTRY_OCCUPIED \<longrightarrow> (x \<in> set (entries ?ht1) \<longleftrightarrow> x \<in> set (entries ht))"
  proof (intro allI impI)
    fix x :: ht_entry_t
    assume x: "state x = ENTRY_OCCUPIED"
    then have "x \<notin> set ?new"
      by (auto simp: empty_entry_def)
    with r(4) x show "x \<in> set (entries ?ht1) \<longleftrightarrow> x \<in> set (entries ht)"
      by simp
  qed
  from cnt cap(1) have load1: "\<not> load_exceeded ?ht1"
    by (simp add: load_exceeded_def)
  from res inv1 set1 load1 t0 cap(1) show ?thesis
    by (intro exI [of _ ?ht1]) simp
qed

lemma ht_set_spec:
  assumes inv: "ht_inv ht"
  shows "\<exists>ht' b s. ht_set ht k v now = Some (ht', b) \<and> ht_inv ht'
           \<and> stored ht' k s \<and> val (entries ht' ! s) = v \<and> expire_at (entries ht' ! s) = - 1"
proof (cases "load_exceeded ht")
  case False
  from ht_set_small [OF inv False, of k v now] show ?thesis
    by blast
next
  case True
  from ht_resize_spec [OF inv] obtain ht1 where
    r: "ht_resize ht = Some ht1" "ht_inv ht1" "\<not> load_exceeded ht1"
    by blast
  from ht_set_resize [OF True r(1) r(3)] have "ht_set ht k v now = ht_set ht1 k v now" .
  with ht_set_small [OF r(2) r(3), of k v now] show ?thesis
    by (simp del: ex_simps) blast
qed

lemma ht_create_inv: "ht_inv ht_create"
proof -
  have "\<exists>m\<ge>2. capacity ht_create = 2 ^ m"
    by (intro exI [of _ 6]) (simp add: ht_create_def HT_INITIAL_CAPACITY_def)
  moreover have "counters_ok ht_create"
    by (simp add: counters_ok_def ht_create_def HT_INITIAL_CAPACITY_def
        tombstone_count_def occupied_count_def empty_entry_def)
  moreover have "probe_chain_ok ht_create"
    by (simp add: probe_chain_ok_def ht_create_def empty_entry_def)
  ultimately show ?thesis
    by (simp add: ht_inv_def) (simp add: ht_create_def HT_INITIAL_CAPACITY_def)
qed

lemma ht_apply_inv:
  assumes inv: "ht_inv ht"
  shows "\<exists>ht'. ht_apply opn ht = Some ht' \<and> ht_inv ht'"
proof (cases opn)
  case (OpSet k v now)
  from ht_set_spec [OF inv, of k v now] obtain ht' b where
    "ht_set ht k v now = Some (ht', b)" "ht_inv ht'"
    by blast
  with OpSet show ?thesis
    by simp
next
  case (OpGet k now)
  with ht_get_inv [OF inv, of k now] show ?thesis
    by simp
next
  case (OpExists k now)
  with ht_exists_inv [OF inv, of k now] show ?thesis
    by simp
next
  case (OpDelete k now)
  with ht_delete_inv [OF inv, of k now] show ?thesis
    by simp
next
  case (OpSetExpire k x now)
  with ht_set_expire_inv [OF inv, of k x now] show ?thesis
    by simp
next
  case (OpGetExpire k now)
  with ht_get_expire_inv [OF inv, of k now] show ?thesis
    by simp
next
  case (OpIterNext index now)
  with ht_iter_next_inv [OF inv, of index now] show ?thesis
    by simp
next
  case OpResize
  with ht_resize_spec [OF inv] show ?thesis
    by auto
qed

lemma ht_run_inv:
  "ht_inv ht \<Longrightarrow> \<exists>ht'. ht_run ht ops = Some ht' \<and> ht_inv ht'"
proof (induction ops arbitrary: ht)
  case Nil
  then show ?case
    by simp
next
  case (Cons opn ops)
  from ht_apply_inv [OF Cons.prems, of opn] obtain ht1 where
    a: "ht_apply opn ht = Some ht1" "ht_inv ht1"
    by blast
  from Cons.IH [OF a(2)] a(1) show ?case
    by simp
qed

lemma reachable_inv:
  assumes "ht_run ht_create ops = Some ht"
  shows "ht_inv ht"
  using ht_run_inv [OF ht_create_inv, of ops] assms by simp

subsection \<open>Reachable tables\<close>

lemmas ht_eval = ht_create_def HT_INITIAL_CAPACITY_def empty_entry_def ht_set_def
  load_exceeded_def probe_def probe_loop.simps fnv1a_hash_def is_expired_def entry_free_def
  ht_delete_def ht_get_def ht_exists_def ht_set_expire_def ht_get_expire_def Let_def

lemma run_collision:
  "map_option
     (\<lambda>ht. (capacity ht, count ht, used ht, state (entries ht ! 45), key (entries ht ! 45),
            state (entries ht ! 44)))
     (ht_run ht_create [OpSet ''a'' ''1'' 0, OpSet ''!'' ''2'' 0, OpDelete ''a'' 0])
   = Some (64, 1, 2, ENTRY_OCCUPIED, ''!'', ENTRY_TOMBSTONE)"
  by (simp add: ht_eval)

lemma run_loaded:
  "map_option
     (\<lambda>ht. (used ht, count ht, capacity ht, capacity (fst (ht_delete ht ''a'' 0)),
            used (fst (ht_delete ht ''a'' 0)), count (fst (ht_delete ht ''a'' 0))))
     (ht_run ht_create
        (map (\<lambda>c. OpSet [c] ''v'' 0) ''abcdefghijklmnopqrstuvwxyzABCDEFGHIJKLMNOPQRS''))
   = Some (45, 45, 64, 64, 45, 44)"
  by (simp add: ht_eval)

text \<open>
  C3. Probe-chain integrity. In every table reached from the empty table by keyspace
  operations (which expire lazily at the clock readings they are given), every occupied slot
  \<open>s\<close> is reached by the probe sequence of its key over tombstones and slots occupied by
  other keys only: no empty slot lies before it. The run itself always returns.
\<close>

theorem probe_chain_integrity:
  "\<exists>ht. ht_run ht_create ops = Some ht \<and> probe_chain_ok ht"
  using ht_run_inv [OF ht_create_inv, of ops] by (auto simp: ht_inv_def)

theorem probe_chain_integrity_witness:
  "\<exists>ht. ht_run ht_create [OpSet ''a'' ''1'' 0, OpSet ''!'' ''2'' 0, OpDelete ''a'' 0] = Some ht
     \<and> state (entries ht ! 44) = ENTRY_TOMBSTONE
     \<and> state (entries ht ! 45) = ENTRY_OCCUPIED \<and> key (entries ht ! 45) = ''!''
     \<and> chain_to (entries ht) (capacity ht) ''!'' 45"
proof -
  from probe_chain_integrity [of "[OpSet ''a'' ''1'' 0, OpSet ''!'' ''2'' 0, OpDelete ''a'' 0]"]
  obtain ht where
    run: "ht_run ht_create [OpSet ''a'' ''1'' 0, OpSet ''!'' ''2'' 0, OpDelete ''a'' 0] = Some ht"
    and ok: "probe_chain_ok ht"
    by blast
  from run_collision run have ev: "capacity ht = 64" "state (entries ht ! 45) = ENTRY_OCCUPIED"
    "key (entries ht ! 45) = ''!''" "state (entries ht ! 44) = ENTRY_TOMBSTONE"
    by simp_all
  from ok ev(1,2) have "chain_to (entries ht) (capacity ht) (key (entries ht ! 45)) 45"
    by (simp add: probe_chain_ok_def)
  with run ev show ?thesis
    by simp
qed

text \<open>
  C4. Counter consistency. After every sequence of keyspace operations (set, get, exists,
  delete, set_expire, get_expire, iteration steps and resizes) from the empty table,
  \<open>count\<close> is the number of occupied slots, \<open>used\<close> is the number of occupied slots plus
  the number of tombstones, and \<open>count \<le> used \<le> capacity\<close>. An entry whose expiry has been
  observed by an operation is a tombstone from then on, so the occupied slots are the
  entries that are live as observed.
\<close>

theorem counter_consistency:
  "\<exists>ht. ht_run ht_create ops = Some ht \<and> counters_ok ht"
  using ht_run_inv [OF ht_create_inv, of ops] by (auto simp: ht_inv_def)

theorem counter_consistency_witness:
  "\<exists>ht. ht_run ht_create [OpSet ''a'' ''1'' 0, OpSet ''!'' ''2'' 0, OpDelete ''a'' 0] = Some ht
     \<and> count ht = 1 \<and> occupied_count (entries ht) = 1
     \<and> used ht = 2 \<and> tombstone_count (entries ht) = 1 \<and> capacity ht = 64"
proof -
  from counter_consistency [of "[OpSet ''a'' ''1'' 0, OpSet ''!'' ''2'' 0, OpDelete ''a'' 0]"]
  obtain ht where
    run: "ht_run ht_create [OpSet ''a'' ''1'' 0, OpSet ''!'' ''2'' 0, OpDelete ''a'' 0] = Some ht"
    and ok: "counters_ok ht"
    by blast
  from run_collision run have ev: "capacity ht = 64" "count ht = 1" "used ht = 2"
    by simp_all
  with ok have "occupied_count (entries ht) = 1" "tombstone_count (entries ht) = 1"
    by (simp_all add: counters_ok_def)
  with run ev show ?thesis
    by simp
qed

text \<open>
  C9. Only \<open>ht_set\<close> calls \<open>ht_resize\<close>. A delete entered with 45 of 64 slots used
  (\<open>45 \<ge> 0.7 \<times> 64\<close>) leaves the capacity at 64 and leaves a tombstone: afterwards
  \<open>used = 45\<close> and \<open>count = 44\<close>.
\<close>

theorem ht_delete_does_not_resize_counterexample:
  "map_option
     (\<lambda>ht. (load_exceeded ht, capacity ht, capacity (fst (ht_delete ht ''a'' 0)),
            used (fst (ht_delete ht ''a'' 0)), count (fst (ht_delete ht ''a'' 0))))
     (ht_run ht_create
        (map (\<lambda>c. OpSet [c] ''v'' 0) ''abcdefghijklmnopqrstuvwxyzABCDEFGHIJKLMNOPQRS''))
   = Some (True, 64, 64, 45, 44)"
proof -
  from ht_run_inv [OF ht_create_inv,
      of "map (\<lambda>c. OpSet [c] ''v'' 0) ''abcdefghijklmnopqrstuvwxyzABCDEFGHIJKLMNOPQRS''"]
  obtain ht where run: "ht_run ht_create
        (map (\<lambda>c. OpSet [c] ''v'' 0) ''abcdefghijklmnopqrstuvwxyzABCDEFGHIJKLMNOPQRS'') = Some ht"
    by blast
  from run_loaded show ?thesis
    unfolding run by (simp add: load_exceeded_def)
qed

text \<open>
  C9, as the code has it. On every reachable table \<open>ht_delete\<close> and \<open>ht_set_expire\<close>
  keep the capacity, whatever the load. When \<open>ht_set\<close> is entered with
  \<open>used \<ge> 0.7 \<times> capacity\<close>, \<open>ht_resize\<close> returns a table \<open>ht1\<close> and the set proceeds on
  \<open>ht1\<close> (which is below the load limit): the capacity is doubled, the occupied entries
  of \<open>ht1\<close> are those of the old table, each at the end of a probe chain of its key, there
  is no tombstone, and \<open>used = count\<close>.
\<close>

theorem ht_set_resizes_on_load:
  assumes "ht_run ht_create ops = Some ht"
  shows "capacity (fst (ht_delete ht k now)) = capacity ht
       \<and> capacity (ht_set_expire ht k x now) = capacity ht
       \<and> (load_exceeded ht \<longrightarrow>
            (\<exists>ht1. ht_resize ht = Some ht1 \<and> \<not> load_exceeded ht1
               \<and> ht_set ht k v now = ht_set ht1 k v now
               \<and> capacity ht1 = 2 * capacity ht
               \<and> (\<forall>e. state e = ENTRY_OCCUPIED \<longrightarrow>
                     (e \<in> set (entries ht1) \<longleftrightarrow> e \<in> set (entries ht)))
               \<and> probe_chain_ok ht1
               \<and> tombstone_count (entries ht1) = 0
               \<and> count ht1 = count ht \<and> used ht1 = count ht1))"
proof (intro conjI impI)
  from assms have inv: "ht_inv ht"
    by (rule reachable_inv)
  from ht_delete_inv [OF inv, of k now]
  show "capacity (fst (ht_delete ht k now)) = capacity ht"
    by simp
  from ht_set_expire_inv [OF inv, of k x now]
  show "capacity (ht_set_expire ht k x now) = capacity ht"
    by simp
  assume load: "load_exceeded ht"
  from ht_resize_spec [OF inv] obtain ht1 where
    r: "ht_resize ht = Some ht1" "ht_inv ht1" "capacity ht1 = 2 * capacity ht"
      "count ht1 = count ht" "used ht1 = count ht1" "tombstone_count (entries ht1) = 0"
      "\<forall>e. state e = ENTRY_OCCUPIED \<longrightarrow> (e \<in> set (entries ht1) \<longleftrightarrow> e \<in> set (entries ht))"
      "\<not> load_exceeded ht1"
    by blast
  from ht_set_resize [OF load r(1) r(8)]
  have "ht_set ht k v now = ht_set ht1 k v now" .
  moreover from r(2) have "probe_chain_ok ht1"
    by (simp add: ht_inv_def)
  ultimately show "\<exists>ht1. ht_resize ht = Some ht1 \<and> \<not> load_exceeded ht1
               \<and> ht_set ht k v now = ht_set ht1 k v now
               \<and> capacity ht1 = 2 * capacity ht
               \<and> (\<forall>e. state e = ENTRY_OCCUPIED \<longrightarrow>
                     (e \<in> set (entries ht1) \<longleftrightarrow> e \<in> set (entries ht)))
               \<and> probe_chain_ok ht1
               \<and> tombstone_count (entries ht1) = 0
               \<and> count ht1 = count ht \<and> used ht1 = count ht1"
    using r by (intro exI [of _ ht1]) simp
qed

theorem ht_set_resizes_on_load_witness:
  "\<exists>ht ht1.
     ht_run ht_create
       (map (\<lambda>c. OpSet [c] ''v'' 0) ''abcdefghijklmnopqrstuvwxyzABCDEFGHIJKLMNOPQRS'') = Some ht
     \<and> load_exceeded ht \<and> capacity ht = 64 \<and> used ht = 45
     \<and> capacity (fst (ht_delete ht ''a'' 0)) = 64
     \<and> capacity (ht_set_expire ht ''a'' 5000 0) = 64
     \<and> ht_resize ht = Some ht1 \<and> ht_set ht ''T'' ''v'' 0 = ht_set ht1 ''T'' ''v'' 0
     \<and> capacity ht1 = 128 \<and> tombstone_count (entries ht1) = 0 \<and> used ht1 = 45 \<and> count ht1 = 45"
proof -
  let ?ops = "map (\<lambda>c. OpSet [c] ''v'' 0) ''abcdefghijklmnopqrstuvwxyzABCDEFGHIJKLMNOPQRS''"
  from ht_run_inv [OF ht_create_inv, of ?ops]
  obtain ht where run: "ht_run ht_create ?ops = Some ht"
    by blast
  from run_loaded have ev: "used ht = 45" "count ht = 45" "capacity ht = 64"
    unfolding run by simp_all
  then have load: "load_exceeded ht"
    by (simp add: load_exceeded_def)
  from ht_set_resizes_on_load [OF run, of "''a''" 0 5000 "''v''"] have keep: "capacity (fst (ht_delete ht ''a'' 0)) = capacity ht"
    "capacity (ht_set_expire ht ''a'' 5000 0) = capacity ht"
    by simp_all
  from ht_set_resizes_on_load [OF run, of "''T''" 0 0 "''v''"] load obtain ht1 where
    "ht_resize ht = Some ht1" "ht_set ht ''T'' ''v'' 0 = ht_set ht1 ''T'' ''v'' 0"
    "capacity ht1 = 2 * capacity ht" "tombstone_count (entries ht1) = 0"
    "count ht1 = count ht" "used ht1 = count ht1"
    by blast
  with run load ev keep show ?thesis
    by (intro exI [of _ ht] exI [of _ ht1]) simp
qed

section \<open>The command handlers\<close>

lemmas cmd_eval = ht_eval parse_int64_def INT64_MAX_def INT64_MIN_def

text \<open>
  C6. A stored value below the signed 64-bit range is accepted by \<open>parse_int64\<close>: only a
  non-negative value is checked for overflow. After \<open>SET k -9223372036854775810\<close>,
  \<open>INCR k\<close> replies with the integer 9223372036854775807 instead of the error.
\<close>

theorem cmd_incr_value_below_int64_min:
  "Option.bind (ht_set ht_create ''k'' ''-9223372036854775810'' 0)
     (\<lambda>(store, new_key).
        map_option fst
          (cmd_incr client_init store [RESP_BULK_STRING ''INCR'', RESP_BULK_STRING ''k''] 0))
   = Some (resp_write_integer client_init 9223372036854775807)"
proof -
  have wrap: "(- 9223372036854775809 :: 64 word) = 9223372036854775807"
    by (simp add: word_uint_eq_iff uint_word_ariths)
  show ?thesis
    by (simp add: cmd_eval cmd_incr_def) (simp only: wrap)
qed

text \<open>
  C7. The handler reads the clock once in \<open>ht_exists\<close> and again in \<open>ht_get_expire\<close>.
  A key that expires at 5000 is found at reading 4999; at reading 5000 \<open>ht_get_expire\<close>
  turns the entry into a tombstone and returns \<open>-1\<close>, which the handler takes for
  an entry without expiry: the reply is the integer \<open>-1\<close>, not \<open>-2\<close>. With the same
  reading 5000 for both, the reply is \<open>-2\<close>.
\<close>

theorem cmd_ttl_expiry_between_clock_readings:
  "Option.bind (ht_run ht_create [OpSet ''k'' ''v'' 1000, OpSetExpire ''k'' 5000 1000])
     (\<lambda>store.
        map_option fst
          (cmd_ttl client_init store [RESP_BULK_STRING ''TTL'', RESP_BULK_STRING ''k'']
             4999 5000 5000 5000))
   = Some (resp_write_integer client_init (- 1))
   \<and> Option.bind (ht_run ht_create [OpSet ''k'' ''v'' 1000, OpSetExpire ''k'' 5000 1000])
     (\<lambda>store.
        map_option fst
          (cmd_ttl client_init store [RESP_BULK_STRING ''TTL'', RESP_BULK_STRING ''k'']
             5000 5000 5000 5000))
   = Some (resp_write_integer client_init (- 2))"
  by (simp add: cmd_eval cmd_ttl_def word_sle_eq)

text \<open>
  C8. \<open>glob_match\<close> compares the pattern byte with the subject byte before it looks for
  a class, so a \<open>[\<close> of the subject is consumed by the \<open>[\<close> that opens a class: the class
  \<open>[!a]\<close> does not match the subject \<open>[\<close>, and the pattern \<open>[a]\<close> matches the three
  bytes \<open>[a]\<close>.
\<close>

theorem glob_match_class_against_bracket:
  "glob_match ''[!a]'' ''['' = False \<and> glob_match ''[a]'' ''[a]'' = True"
  by (simp add: glob_match_def glob_match_loop.simps skip_stars.simps)



lemma ttl_seconds:
  fixes e now :: "64 word"
  assumes clock: "999 \<le> sint now" and live: "sint now < sint e"
  shows "\<not> (e - now \<le>s 0)"
    and "1000 * (sint (sdiv64 (e - now + 999) 1000) - 1) < sint e - sint now"
    and "sint e - sint now \<le> 1000 * sint (sdiv64 (e - now + 999) 1000)"
proof -
  let ?D = "sint e - sint now"
  have up: "sint e < 2 ^ 63"
    using sint_lt [of e] by simp
  from clock live up have D: "0 < ?D" "?D + 999 < 2 ^ 63"
    by simp_all
  then have "- (2 ^ 63) \<le> ?D" "?D < 2 ^ 63"
    by simp_all
  then have sD: "sint (e - now) = ?D"
    by (simp add: sint_word_diff signed_take_bit_int_eq_self)
  with D(1) show "\<not> (e - now \<le>s 0)"
    by (simp add: word_sle_eq)
  have s999: "sint (999 :: 64 word) = 999"
    by simp
  from D have "- (2 ^ 63) \<le> ?D + 999" "?D + 999 < 2 ^ 63"
    by simp_all
  then have sR: "sint (e - now + 999) = ?D + 999"
    by (simp add: sint_word_add sD s999 signed_take_bit_int_eq_self)
  have s1000: "sint (1000 :: 64 word) = 1000"
    by simp
  from D have q: "0 \<le> (?D + 999) div 1000" "(?D + 999) div 1000 < 2 ^ 63"
    by simp_all
  from D(1) have "sdiv64 (e - now + 999) 1000 = word_of_int ((?D + 999) div 1000)"
    by (simp add: sdiv64_def sR s1000)
  moreover from q have "sint (word_of_int ((?D + 999) div 1000) :: 64 word) = (?D + 999) div 1000"
    by (simp add: sint_sbintrunc' signed_take_bit_int_eq_self)
  ultimately have sq: "sint (sdiv64 (e - now + 999) 1000) = (?D + 999) div 1000"
    by simp
  show "1000 * (sint (sdiv64 (e - now + 999) 1000) - 1) < ?D"
    unfolding sq by simp
  show "?D \<le> 1000 * sint (sdiv64 (e - now + 999) 1000)"
    unfolding sq by simp
qed

text \<open>
  When the four readings of \<open>cmd_ttl\<close> are one and the same instant (at least 999 ms
  after the epoch, so that \<open>remaining_ms + 999\<close> does not overflow), the reply on a
  reachable store is: \<open>-2\<close> for an absent key; \<open>-1\<close> for a key without expiry; \<open>-2\<close>, the
  entry turned into a tombstone, for a key whose expiry has passed; and otherwise the
  least number of seconds that covers the remaining milliseconds.
\<close>

lemma cmd_ttl_equal_readings:
  assumes reach: "ht_run ht_create ops = Some store" and clock: "999 \<le> sint now"
  shows "(\<forall>s. \<not> stored store k s) \<longrightarrow>
           cmd_ttl client store [a, RESP_BULK_STRING k] now now now now
             = Some (resp_write_integer client (- 2), store)"
    and "stored store k s \<and> expire_at (entries store ! s) = - 1 \<longrightarrow>
           cmd_ttl client store [a, RESP_BULK_STRING k] now now now now
             = Some (resp_write_integer client (- 1), store)"
    and "stored store k s \<and> expire_at (entries store ! s) \<noteq> - 1
           \<and> expire_at (entries store ! s) \<le>s now \<longrightarrow>
           cmd_ttl client store [a, RESP_BULK_STRING k] now now now now
             = Some (resp_write_integer client (- 2), tombstoned store s)"
    and "stored store k s \<and> expire_at (entries store ! s) \<noteq> - 1
           \<and> now <s expire_at (entries store ! s) \<longrightarrow>
           (\<exists>n. cmd_ttl client store [a, RESP_BULK_STRING k] now now now now
                  = Some (resp_write_integer client n, store)
              \<and> 1000 * (sint n - 1) < sint (expire_at (entries store ! s)) - sint now
              \<and> sint (expire_at (entries store ! s)) - sint now \<le> 1000 * sint n)"
proof -
  from reach have inv: "ht_inv store"
    by (rule reachable_inv)
  show "(\<forall>s. \<not> stored store k s) \<longrightarrow>
           cmd_ttl client store [a, RESP_BULK_STRING k] now now now now
             = Some (resp_write_integer client (- 2), store)"
  proof
    assume "\<forall>s. \<not> stored store k s"
    from probe_absent [OF inv this, of now] obtain slot where
      "probe store k now = (store, slot, False)"
      by blast
    then show "cmd_ttl client store [a, RESP_BULK_STRING k] now now now now
             = Some (resp_write_integer client (- 2), store)"
      by (simp add: cmd_ttl_def ht_exists_def)
  qed
  show "stored store k s \<and> expire_at (entries store ! s) = - 1 \<longrightarrow>
           cmd_ttl client store [a, RESP_BULK_STRING k] now now now now
             = Some (resp_write_integer client (- 1), store)"
  proof
    assume h: "stored store k s \<and> expire_at (entries store ! s) = - 1"
    then have "\<not> is_expired now (entries store ! s)"
      by (simp add: is_expired_def)
    from probe_present [OF inv _ this, of k] h have "probe store k now = (store, s, True)"
      by simp
    with h show "cmd_ttl client store [a, RESP_BULK_STRING k] now now now now
             = Some (resp_write_integer client (- 1), store)"
      by (simp add: cmd_ttl_def ht_exists_def ht_get_expire_def)
  qed
  show "stored store k s \<and> expire_at (entries store ! s) \<noteq> - 1
           \<and> expire_at (entries store ! s) \<le>s now \<longrightarrow>
           cmd_ttl client store [a, RESP_BULK_STRING k] now now now now
             = Some (resp_write_integer client (- 2), tombstoned store s)"
  proof
    assume h: "stored store k s \<and> expire_at (entries store ! s) \<noteq> - 1
           \<and> expire_at (entries store ! s) \<le>s now"
    then have "is_expired now (entries store ! s)"
      by (simp add: is_expired_def)
    from probe_present_expired [OF inv _ this, of k] h obtain slot where
      "probe store k now = (tombstoned store s, slot, False)"
      by blast
    then show "cmd_ttl client store [a, RESP_BULK_STRING k] now now now now
             = Some (resp_write_integer client (- 2), tombstoned store s)"
      by (simp add: cmd_ttl_def ht_exists_def)
  qed
  show "stored store k s \<and> expire_at (entries store ! s) \<noteq> - 1
           \<and> now <s expire_at (entries store ! s) \<longrightarrow>
           (\<exists>n. cmd_ttl client store [a, RESP_BULK_STRING k] now now now now
                  = Some (resp_write_integer client n, store)
              \<and> 1000 * (sint n - 1) < sint (expire_at (entries store ! s)) - sint now
              \<and> sint (expire_at (entries store ! s)) - sint now \<le> 1000 * sint n)"
  proof
    let ?e = "expire_at (entries store ! s)"
    assume h: "stored store k s \<and> ?e \<noteq> - 1 \<and> now <s ?e"
    then have live: "sint now < sint ?e"
      by (simp add: word_sless_alt)
    then have "\<not> is_expired now (entries store ! s)"
      by (simp add: is_expired_def word_sle_eq)
    from probe_present [OF inv _ this, of k] h have p: "probe store k now = (store, s, True)"
      by simp
    note sec = ttl_seconds [OF clock live]
    from p h sec(1) have "cmd_ttl client store [a, RESP_BULK_STRING k] now now now now
        = Some (resp_write_integer client (sdiv64 (?e - now + 999) 1000), store)"
      by (simp add: cmd_ttl_def ht_exists_def ht_get_expire_def Let_def)
    with sec(2,3) show "\<exists>n. cmd_ttl client store [a, RESP_BULK_STRING k] now now now now
                  = Some (resp_write_integer client n, store)
              \<and> 1000 * (sint n - 1) < sint ?e - sint now
              \<and> sint ?e - sint now \<le> 1000 * sint n"
      by blast
  qed
qed

end
